theory Spec2Isabelle
  imports Main "HOL-Library.Sublist" "HOL-Library.Multiset"
begin

section \<open>Go strings\<close>

text \<open>
  A Go \<^verbatim>\<open>string\<close> is a sequence of bytes, here a \<^typ>\<open>string\<close> (a list of 8-bit
  characters). A Go \<^verbatim>\<open>error\<close> is modelled by its message and \<^verbatim>\<open>nil\<close> by \<open>None\<close>.
\<close>

type_synonym error = string

text \<open>\<^verbatim>\<open>strings.Split(s, "\n")\<close>: the pieces between line feeds; never the empty list.\<close>

fun Split_nl :: "string \<Rightarrow> string list" where
  "Split_nl [] = [[]]"
| "Split_nl (c # cs) =
     (if c = CHR 0x0A then [] # Split_nl cs
      else (case Split_nl cs of [] \<Rightarrow> [[c]] | x # xs \<Rightarrow> (c # x) # xs))"

definition HasSuffix :: "string \<Rightarrow> string \<Rightarrow> bool" where
  "HasSuffix s suf = suffix suf s"

definition TrimSuffix :: "string \<Rightarrow> string \<Rightarrow> string" where
  "TrimSuffix s suf = (if HasSuffix s suf then take (length s - length suf) s else s)"

text \<open>\<^verbatim>\<open>strings.Contains(s, sub)\<close>: some position of \<open>s\<close> starts with \<open>sub\<close>.\<close>

fun Contains :: "string \<Rightarrow> string \<Rightarrow> bool" where
  "Contains [] sub = (sub = [])"
| "Contains (c # cs) sub = (prefix sub (c # cs) \<or> Contains cs sub)"

text \<open>
  \<^verbatim>\<open>strings.TrimSpace\<close> removes leading and trailing white space as \<^verbatim>\<open>unicode.IsSpace\<close>
  defines it. On bytes these are the UTF-8 encodings of U+0009..U+000D, U+0020, U+0085,
  U+00A0, U+1680, U+2000..U+200A, U+2028, U+2029, U+202F, U+205F and U+3000.
\<close>

definition ws_seqs :: "string list" where
  "ws_seqs =
    [[CHR 0x09], [CHR 0x0A], [CHR 0x0B], [CHR 0x0C], [CHR 0x0D], [CHR 0x20],
     [CHR 0xC2, CHR 0x85], [CHR 0xC2, CHR 0xA0],
     [CHR 0xE1, CHR 0x9A, CHR 0x80],
     [CHR 0xE2, CHR 0x80, CHR 0x80], [CHR 0xE2, CHR 0x80, CHR 0x81],
     [CHR 0xE2, CHR 0x80, CHR 0x82], [CHR 0xE2, CHR 0x80, CHR 0x83],
     [CHR 0xE2, CHR 0x80, CHR 0x84], [CHR 0xE2, CHR 0x80, CHR 0x85],
     [CHR 0xE2, CHR 0x80, CHR 0x86], [CHR 0xE2, CHR 0x80, CHR 0x87],
     [CHR 0xE2, CHR 0x80, CHR 0x88], [CHR 0xE2, CHR 0x80, CHR 0x89],
     [CHR 0xE2, CHR 0x80, CHR 0x8A],
     [CHR 0xE2, CHR 0x80, CHR 0xA8], [CHR 0xE2, CHR 0x80, CHR 0xA9],
     [CHR 0xE2, CHR 0x80, CHR 0xAF],
     [CHR 0xE2, CHR 0x81, CHR 0x9F],
     [CHR 0xE3, CHR 0x80, CHR 0x80]]"

text \<open>\<open>strip ws s\<close> removes from the front of \<open>s\<close> every leading occurrence of a sequence of \<open>ws\<close>.\<close>

function strip :: "string list \<Rightarrow> string \<Rightarrow> string" where
  "strip ws s =
     (case find (\<lambda>w. w \<noteq> [] \<and> prefix w s) ws of
        None \<Rightarrow> s
      | Some w \<Rightarrow> strip ws (drop (length w) s))"
  by pat_completeness auto
termination
proof (relation "measure (\<lambda>(ws, s). length s)")
  show "wf (measure (\<lambda>(ws, s). length s))" by simp
next
  fix ws :: "string list" and s w :: string
  assume "find (\<lambda>w. w \<noteq> [] \<and> prefix w s) ws = Some w"
  then have "w \<noteq> []" and "prefix w s"
    by (auto simp: find_Some_iff)
  then show "((ws, drop (length w) s), (ws, s)) \<in> measure (\<lambda>(ws, s). length s)"
    by (auto simp: prefix_def)
qed

declare strip.simps [simp del]

definition TrimSpace :: "string \<Rightarrow> string" where
  "TrimSpace s = rev (strip (map rev ws_seqs) (rev (strip ws_seqs s)))"

text \<open>The decimal text of an integer, as the verb \<^verbatim>\<open>%d\<close> of \<^verbatim>\<open>fmt\<close> prints it.\<close>

function utoa :: "nat \<Rightarrow> string" where
  "utoa n = (if n < 10 then [char_of (48 + n)] else utoa (n div 10) @ [char_of (48 + n mod 10)])"
  by pat_completeness auto
termination
  by (relation "measure id") auto

declare utoa.simps [simp del]

definition itoa :: "int \<Rightarrow> string" where
  "itoa i = (if i < 0 then CHR ''-'' # utoa (nat (- i)) else utoa (nat i))"

text \<open>A slice of strings as the verb \<^verbatim>\<open>%v\<close> prints it: the elements between brackets, one space apart.\<close>

fun Join_sp :: "string list \<Rightarrow> string" where
  "Join_sp [] = []"
| "Join_sp [x] = x"
| "Join_sp (x # y # ys) = x @ '' '' @ Join_sp (y # ys)"

definition fmt_slice :: "string list \<Rightarrow> string" where
  "fmt_slice xs = ''['' @ Join_sp xs @ '']''"

section \<open>The libraries and the network\<close>

text \<open>
  The value \<^verbatim>\<open>json.Unmarshal\<close> stores in a \<^verbatim>\<open>map[string]any\<close>: an object is kept as its list
  of members, looked up with \<^const>\<open>map_of\<close>.
\<close>

datatype json =
    JNull
  | JBool bool
  | JNumber string
  | JString string
  | JArray "json list"
  | JObject "(string \<times> json) list"

text \<open>
  The decoders are not code of this repository; they are parameters of the model:
  \<^item> \<open>image_Decode\<close> is \<^verbatim>\<open>image.Decode\<close> with the registered formats: the pixels and the format name;
  \<^item> \<open>png_Encode\<close> is \<^verbatim>\<open>png.Encode\<close>: the bytes written to the buffer;
  \<^item> \<open>json_chunk\<close> is \<^verbatim>\<open>json.Unmarshal\<close> into a \<^verbatim>\<open>map[string]any\<close>;
  \<^item> \<open>json_models\<close> is \<^verbatim>\<open>json.Unmarshal\<close> into a \<^verbatim>\<open>ModelsResponse\<close>, of which the model keeps the
    \<^verbatim>\<open>Name\<close> of every entry of \<^verbatim>\<open>Models\<close>, in order.
\<close>

record 'img env =
  image_Decode :: "string \<Rightarrow> error + ('img \<times> string)"
  png_Encode :: "'img \<Rightarrow> error + string"
  json_chunk :: "string \<Rightarrow> error + (string \<times> json) list"
  json_models :: "string \<Rightarrow> error + string list"

text \<open>
  What \<^verbatim>\<open>HTTPClient.DoTimeout\<close> leaves behind: an error (connection, time-out), or a
  response with its status code and body.
\<close>

datatype reply = TransportError error | Response int string

record Client =
  Host :: string
  Model :: string
  Timeout :: int

definition NewClient :: "string \<Rightarrow> string \<Rightarrow> int \<Rightarrow> Client" where
  "NewClient host model timeout = \<lparr>Host = host, Model = model, Timeout = timeout\<rparr>"

section \<open>base64.StdEncoding\<close>

definition encodeStd :: string where
  "encodeStd = ''ABCDEFGHIJKLMNOPQRSTUVWXYZabcdefghijklmnopqrstuvwxyz0123456789+/''"

definition b64_char :: "nat \<Rightarrow> char" where
  "b64_char i = encodeStd ! (i mod 64)"

definition b64_val :: "char \<Rightarrow> nat option" where
  "b64_val c = map_of (zip encodeStd [0..<64]) c"

fun EncodeToString :: "string \<Rightarrow> string" where
  "EncodeToString [] = []"
| "EncodeToString [a] =
     (let x = (of_char a :: nat)
      in [b64_char (x div 4), b64_char (x mod 4 * 16), CHR ''='', CHR ''=''])"
| "EncodeToString [a, b] =
     (let x = (of_char a :: nat); y = (of_char b :: nat)
      in [b64_char (x div 4), b64_char (x mod 4 * 16 + y div 16), b64_char (y mod 16 * 4),
          CHR ''=''])"
| "EncodeToString (a # b # c # rest) =
     (let x = (of_char a :: nat); y = (of_char b :: nat); z = (of_char c :: nat)
      in [b64_char (x div 4), b64_char (x mod 4 * 16 + y div 16),
          b64_char (y mod 16 * 4 + z div 64), b64_char (z mod 64)] @ EncodeToString rest)"

text \<open>
  The way back, for the encodings \<^verbatim>\<open>EncodeToString\<close> produces: four characters give three
  bytes, and only the last group may end in one or two \<^verbatim>\<open>=\<close>, whose unused bits are zero.
  (\<^verbatim>\<open>DecodeString\<close> of the library also accepts line breaks and unused bits that are not
  zero; the encoder writes neither.)
\<close>

fun DecodeString :: "string \<Rightarrow> string option" where
  "DecodeString [] = Some []"
| "DecodeString (p # q # r # s # rest) =
     (case (b64_val p, b64_val q) of
        (Some x, Some y) \<Rightarrow>
          (if r = CHR ''='' \<and> s = CHR ''='' \<and> rest = [] then
             (if y mod 16 = 0 then Some [char_of (x * 4 + y div 16)] else None)
           else (case b64_val r of
              None \<Rightarrow> None
            | Some z \<Rightarrow>
               (if s = CHR ''='' \<and> rest = [] then
                  (if z mod 4 = 0
                   then Some [char_of (x * 4 + y div 16), char_of (y mod 16 * 16 + z div 4)]
                   else None)
                else (case b64_val s of
                   None \<Rightarrow> None
                 | Some v \<Rightarrow>
                    (case DecodeString rest of
                       None \<Rightarrow> None
                     | Some bs \<Rightarrow>
                        Some (char_of (x * 4 + y div 16) # char_of (y mod 16 * 16 + z div 4)
                              # char_of (z mod 4 * 64 + v) # bs))))))
      | _ \<Rightarrow> None)"
| "DecodeString _ = None"

section \<open>pkg/ollama: the client\<close>

subsection \<open>CheckModelExists\<close>

text \<open>The condition under which the loop over \<^verbatim>\<open>modelsResp.Models\<close> accepts an entry named \<open>name\<close>.\<close>

definition name_matches :: "string \<Rightarrow> string \<Rightarrow> bool" where
  "name_matches name model \<longleftrightarrow>
     name = model
     \<or> (HasSuffix name '':latest'' \<and> TrimSuffix name '':latest'' = model)
     \<or> (HasSuffix model '':latest'' \<and> TrimSuffix model '':latest'' = TrimSuffix name '':latest'')"

text \<open>
  The loop: every name visited is appended to \<^verbatim>\<open>availableModels\<close>; the first accepted entry
  sets \<^verbatim>\<open>modelFound\<close> and breaks.
\<close>

fun find_model :: "string \<Rightarrow> string list \<Rightarrow> string list \<Rightarrow> bool \<times> string list" where
  "find_model model [] availableModels = (False, availableModels)"
| "find_model model (name # rest) availableModels =
     (if name_matches name model then (True, availableModels @ [name])
      else find_model model rest (availableModels @ [name]))"

definition CheckModelExists :: "'img env \<Rightarrow> Client \<Rightarrow> reply \<Rightarrow> error option" where
  "CheckModelExists E c r =
     (case r of
        TransportError err \<Rightarrow> Some (''failed to connect to Ollama API: '' @ err)
      | Response status body \<Rightarrow>
          if status \<noteq> 200 then Some (''Ollama API returned status '' @ itoa status)
          else (case json_models E body of
             Inl err \<Rightarrow> Some (''failed to parse models response: '' @ err)
           | Inr names \<Rightarrow>
              (case find_model (Model c) names [] of
                 (True, _) \<Rightarrow> None
               | (False, availableModels) \<Rightarrow>
                   Some (''model '' @ [CHR 0x27] @ Model c @ [CHR 0x27]
                         @ '' not found. Available models: '' @ fmt_slice availableModels))))"

subsection \<open>DownloadImageAsBase64\<close>

definition DownloadImageAsBase64 :: "'img env \<Rightarrow> reply \<Rightarrow> string \<Rightarrow> error + string" where
  "DownloadImageAsBase64 E r url =
     (case r of
        TransportError err \<Rightarrow> Inl (''error fetching '' @ url @ '': '' @ err)
      | Response status data \<Rightarrow>
          if status \<noteq> 200 then Inl (''bad status for '' @ url @ '': '' @ itoa status)
          else (case image_Decode E data of
             Inl err \<Rightarrow> Inl (''error decoding image from '' @ url @ '': '' @ err)
           | Inr (img, format) \<Rightarrow>
               if format = ''png'' then Inr (EncodeToString data)
               else (case png_Encode E img of
                  Inl err \<Rightarrow> Inl (''error encoding PNG: '' @ err)
                | Inr buf \<Rightarrow> Inr (EncodeToString buf))))"

subsection \<open>CompareFaviconsChatAPI\<close>

text \<open>
  \<open>write_content fullText chunk\<close>: the builder after
  \<^verbatim>\<open>chunk["message"].(map[string]any)\<close> and \<^verbatim>\<open>msg["content"].(string)\<close>; \<open>chunk_done\<close>:
  \<^verbatim>\<open>chunk["done"].(bool)\<close> is present and true.
\<close>

definition write_content :: "string \<Rightarrow> (string \<times> json) list \<Rightarrow> string" where
  "write_content fullText chunk =
     (case map_of chunk ''message'' of
        Some (JObject msg) \<Rightarrow>
          (case map_of msg ''content'' of
             Some (JString content) \<Rightarrow> fullText @ content
           | _ \<Rightarrow> fullText)
      | _ \<Rightarrow> fullText)"

definition chunk_done :: "(string \<times> json) list \<Rightarrow> bool" where
  "chunk_done chunk = (case map_of chunk ''done'' of Some (JBool done) \<Rightarrow> done | _ \<Rightarrow> False)"

text \<open>The loop over the lines of the body, with its two \<^verbatim>\<open>continue\<close> and its \<^verbatim>\<open>break\<close>.\<close>

fun read_stream :: "'img env \<Rightarrow> string list \<Rightarrow> string \<Rightarrow> string" where
  "read_stream E [] fullText = fullText"
| "read_stream E (l # ls) fullText =
     (let line = TrimSpace l in
      if line = [] then read_stream E ls fullText
      else (case json_chunk E line of
         Inl err \<Rightarrow> read_stream E ls fullText
       | Inr chunk \<Rightarrow>
           (let fullText' = write_content fullText chunk in
            if chunk_done chunk then fullText' else read_stream E ls fullText')))"

text \<open>
  The two images go into the request; what comes back is the reply \<open>r\<close>. The result is the
  pair \<^verbatim>\<open>(bool, error)\<close> of the source.
\<close>

definition CompareFaviconsChatAPI ::
  "'img env \<Rightarrow> Client \<Rightarrow> string \<Rightarrow> string \<Rightarrow> reply \<Rightarrow> bool \<times> error option" where
  "CompareFaviconsChatAPI E c base64Base base64Target r =
     (case r of
        TransportError err \<Rightarrow> (False, Some err)
      | Response status responseText \<Rightarrow>
          (let answer = read_stream E (Split_nl responseText) [];
               match = Contains answer ''Yes''
           in (match, None)))"

section \<open>cmd/favlens: main and its workers\<close>

datatype Job = Job (URL: string)

record Result =
  URL :: string
  Match :: bool
  Err :: "error option"

subsection \<open>Sending the jobs\<close>

text \<open>The suffix test of the sending loop and the URL it sends.\<close>

definition favicon_url :: "string \<Rightarrow> string" where
  "favicon_url url =
     (if \<not> HasSuffix url ''.ico'' \<and> \<not> HasSuffix url ''.png''
         \<and> \<not> HasSuffix url ''.jpg'' \<and> \<not> HasSuffix url ''.jpeg''
         \<and> \<not> HasSuffix url ''.gif'' \<and> \<not> HasSuffix url ''.svg''
         \<and> \<not> Contains url ''favicon''
      then (if HasSuffix url ''/'' then url @ ''favicon.ico'' else url @ ''/favicon.ico'')
      else url)"

text \<open>The jobs sent on the channel, in order, for the lines of the file.\<close>

fun send_jobs :: "string list \<Rightarrow> Job list" where
  "send_jobs [] = []"
| "send_jobs (l # ls) =
     (let url = TrimSpace l in
      if url = [] then send_jobs ls else Job (favicon_url url) # send_jobs ls)"

definition read_lines :: "string \<Rightarrow> string list" where
  "read_lines content = Split_nl (TrimSpace content)"

definition dispatch :: "string \<Rightarrow> Job list" where
  "dispatch content = send_jobs (read_lines content)"

subsection \<open>The worker\<close>

text \<open>
  One iteration of the worker's loop for the job it received: \<open>dl\<close> is what the network gives
  for the download of the job's URL and \<open>chat\<close> what it gives for the request to
  \<^verbatim>\<open>/api/chat\<close>.
\<close>

definition worker_job ::
  "'img env \<Rightarrow> Client \<Rightarrow> string \<Rightarrow> Job \<Rightarrow> reply \<Rightarrow> reply \<Rightarrow> Result" where
  "worker_job E c baseIcon job dl chat =
     (case DownloadImageAsBase64 E dl (Job.URL job) of
        Inl err \<Rightarrow> \<lparr>URL = Job.URL job, Match = False, Err = Some err\<rparr>
      | Inr targetIcon \<Rightarrow>
          (case CompareFaviconsChatAPI E c baseIcon targetIcon chat of
             (match, err) \<Rightarrow> \<lparr>URL = Job.URL job, Match = match, Err = err\<rparr>))"

subsection \<open>The pool\<close>

text \<open>
  A worker goroutine waits at \<^verbatim>\<open>range jobs\<close>, works on the job it received, or has returned
  (and called \<^verbatim>\<open>wg.Done\<close>).
\<close>

datatype wstate = Idle | Busy Job | Exited

text \<open>
  The state of the run from the start of the workers on: the jobs \<^verbatim>\<open>main\<close> still has to send,
  the buffer of the channel \<^verbatim>\<open>jobs\<close> and whether it is closed, the workers, the buffer of the
  channel \<^verbatim>\<open>results\<close> and whether it is closed, the results \<^verbatim>\<open>main\<close> has received from it,
  and the capacity of both channels (\<^verbatim>\<open>len(lines)\<close>).
\<close>

record pool =
  to_send :: "Job list"
  jobs :: "Job list"
  jobs_closed :: bool
  workers :: "wstate list"
  results :: "Result list"
  results_closed :: bool
  received :: "Result list"
  cap :: nat

definition init_pool :: "string list \<Rightarrow> nat \<Rightarrow> pool" where
  "init_pool lines n =
     \<lparr>to_send = send_jobs lines, jobs = [], jobs_closed = False,
      workers = replicate n Idle, results = [], results_closed = False,
      received = [], cap = length lines\<rparr>"

text \<open>
  The steps of the goroutines, interleaved in any order. A send on a full channel and a
  receive on an empty open channel block: the step is not enabled. \<^verbatim>\<open>main\<close> sends its jobs,
  closes \<^verbatim>\<open>jobs\<close> and then receives results; the goroutine behind \<^verbatim>\<open>wg.Wait\<close>, started
  after \<^verbatim>\<open>close(jobs)\<close>, closes \<^verbatim>\<open>results\<close> once every worker has returned. The pause
  \<^verbatim>\<open>time.Sleep\<close> before a download takes time and changes no state; it is no step.
\<close>

inductive pool_step :: "'img env \<Rightarrow> Client \<Rightarrow> string \<Rightarrow> pool \<Rightarrow> pool \<Rightarrow> bool"
  for E :: "'img env" and c :: Client and baseIcon :: string where
  send: "to_send s = j # js \<Longrightarrow> length (jobs s) < cap s \<Longrightarrow>
         pool_step E c baseIcon s (s\<lparr>to_send := js, jobs := jobs s @ [j]\<rparr>)"
| close_jobs: "to_send s = [] \<Longrightarrow> \<not> jobs_closed s \<Longrightarrow>
         pool_step E c baseIcon s (s\<lparr>jobs_closed := True\<rparr>)"
| recv: "i < length (workers s) \<Longrightarrow> workers s ! i = Idle \<Longrightarrow> jobs s = j # js \<Longrightarrow>
         pool_step E c baseIcon s (s\<lparr>jobs := js, workers := (workers s)[i := Busy j]\<rparr>)"
| emit: "i < length (workers s) \<Longrightarrow> workers s ! i = Busy j \<Longrightarrow> length (results s) < cap s \<Longrightarrow>
         pool_step E c baseIcon s
           (s\<lparr>workers := (workers s)[i := Idle],
              results := results s @ [worker_job E c baseIcon j dl chat]\<rparr>)"
| exit: "i < length (workers s) \<Longrightarrow> workers s ! i = Idle \<Longrightarrow> jobs s = [] \<Longrightarrow> jobs_closed s \<Longrightarrow>
         pool_step E c baseIcon s (s\<lparr>workers := (workers s)[i := Exited]\<rparr>)"
| close_results: "jobs_closed s \<Longrightarrow> \<forall>w \<in> set (workers s). w = Exited \<Longrightarrow>
         \<not> results_closed s \<Longrightarrow>
         pool_step E c baseIcon s (s\<lparr>results_closed := True\<rparr>)"
| collect: "jobs_closed s \<Longrightarrow> results s = r # rs \<Longrightarrow>
         pool_step E c baseIcon s (s\<lparr>results := rs, received := received s @ [r]\<rparr>)"

text \<open>The states a run can be in, and the state in which \<^verbatim>\<open>main\<close> leaves its receiving loop.\<close>

inductive reachable :: "'img env \<Rightarrow> Client \<Rightarrow> string \<Rightarrow> string list \<Rightarrow> nat \<Rightarrow> pool \<Rightarrow> bool"
  for E :: "'img env" and c :: Client and baseIcon :: string and lines :: "string list" and n :: nat
  where
  start: "reachable E c baseIcon lines n (init_pool lines n)"
| step: "reachable E c baseIcon lines n s \<Longrightarrow> pool_step E c baseIcon s s' \<Longrightarrow>
         reachable E c baseIcon lines n s'"

definition finished :: "pool \<Rightarrow> bool" where
  "finished s \<longleftrightarrow> jobs_closed s \<and> results_closed s \<and> results s = []"

text \<open>The results the pool has emitted so far, in the order of their arrival.\<close>

definition emitted :: "pool \<Rightarrow> Result list" where
  "emitted s = received s @ results s"

text \<open>A bound on the number of steps that are left.\<close>

definition busy :: "wstate \<Rightarrow> bool" where
  "busy w = (case w of Busy j \<Rightarrow> True | _ \<Rightarrow> False)"

definition steps_left :: "pool \<Rightarrow> nat" where
  "steps_left s =
     5 * length (to_send s) + 4 * length (jobs s) + 3 * length (filter busy (workers s))
     + 2 * length (results s) + length (filter (\<lambda>w. w \<noteq> Exited) (workers s))
     + (if jobs_closed s then 0 else 1) + (if results_closed s then 0 else 1)"

subsection \<open>The output file and the receiving loop\<close>

text \<open>
  The file system maps a path to the content of the file there. \<^verbatim>\<open>os.Create\<close> fails with the
  error the system gives (\<open>fail\<close>), or leaves an empty file at the path: it truncates a file
  that exists.
\<close>

type_synonym fs = "string \<rightharpoonup> string"

definition os_Create :: "error option \<Rightarrow> fs \<Rightarrow> string \<Rightarrow> error + fs" where
  "os_Create fail files name =
     (case fail of Some err \<Rightarrow> Inl err | None \<Rightarrow> Inr (files(name \<mapsto> [])))"

text \<open>
  \<^verbatim>\<open>fmt.Fprintln(outFile, url)\<close> hands the URL and a line feed to the file's \<^verbatim>\<open>Write\<close>. What a
  write does to the content is the system's: \<open>wr content data\<close> is the new content and the
  error, which the loop only logs.
\<close>

type_synonym file_write = "string \<Rightarrow> string \<Rightarrow> string \<times> error option"

definition Fprintln :: "file_write \<Rightarrow> fs \<Rightarrow> string \<Rightarrow> string \<Rightarrow> fs \<times> error option" where
  "Fprintln wr files name a =
     (case files name of
        None \<Rightarrow> (files, Some ''file does not exist'')
      | Some content \<Rightarrow>
          (case wr content (a @ [CHR 0x0A]) of (content', err) \<Rightarrow> (files(name \<mapsto> content'), err)))"

record summary =
  matchCount :: nat
  errorCount :: nat
  stdout :: string
  files :: fs

text \<open>
  The preparation of the output file: \<open>Inl\<close> is the fatal exit, \<open>Inr\<close> the file system and
  \<^verbatim>\<open>outFile\<close> (\<open>None\<close> for \<^verbatim>\<open>nil\<close>, else the path that was opened).
\<close>

definition prepare_output :: "error option \<Rightarrow> fs \<Rightarrow> string \<Rightarrow> error + (fs \<times> string option)" where
  "prepare_output fail fs0 output =
     (if output \<noteq> [] then
        (case os_Create fail fs0 output of
           Inl err \<Rightarrow> Inl (''Failed to create output file: '' @ err)
         | Inr fs1 \<Rightarrow> Inr (fs1, Some output))
      else Inr (fs0, None))"

text \<open>The loop over the results that arrive.\<close>

fun collect_results :: "file_write \<Rightarrow> string option \<Rightarrow> Result list \<Rightarrow> summary \<Rightarrow> summary" where
  "collect_results wr outFile [] s = s"
| "collect_results wr outFile (result # rest) s =
     (if Err result \<noteq> None then
        collect_results wr outFile rest (s\<lparr>errorCount := errorCount s + 1\<rparr>)
      else if Match result then
        (let s1 = s\<lparr>matchCount := matchCount s + 1,
                    stdout := stdout s @ URL result @ [CHR 0x0A]\<rparr>;
             s2 = (case outFile of
                     None \<Rightarrow> s1
                   | Some name \<Rightarrow> s1\<lparr>files := fst (Fprintln wr (files s1) name (URL result))\<rparr>)
         in collect_results wr outFile rest s2)
      else collect_results wr outFile rest s)"

text \<open>
  From the preparation of the output file to the end of the receiving loop, for the results in
  the order of their arrival.
\<close>

definition report ::
  "file_write \<Rightarrow> error option \<Rightarrow> fs \<Rightarrow> string \<Rightarrow> Result list \<Rightarrow> error + summary" where
  "report wr fail fs0 output rs =
     (case prepare_output fail fs0 output of
        Inl err \<Rightarrow> Inl err
      | Inr (fs1, outFile) \<Rightarrow>
          Inr (collect_results wr outFile rs
                 \<lparr>matchCount = 0, errorCount = 0, stdout = [], files = fs1\<rparr>))"

section \<open>The specification's words\<close>

text \<open>
  The definitions of this section follow the specification, not the source; the theorems
  below compare them with the functions of the sections above.
\<close>

subsection \<open>The stream of the comparison\<close>

text \<open>
  The records of a streamed body: its lines are trimmed, the blank ones skipped, and the
  lines that do not parse skipped.
\<close>

definition parsed_records :: "'img env \<Rightarrow> string list \<Rightarrow> (string \<times> json) list list" where
  "parsed_records E ls =
     List.map_filter (\<lambda>l. case json_chunk E l of Inl err \<Rightarrow> None | Inr chunk \<Rightarrow> Some chunk)
       (filter (\<lambda>l. l \<noteq> []) (map TrimSpace ls))"

text \<open>The records up to and including the first one whose \<^verbatim>\<open>done\<close> field is true.\<close>

fun upto_done :: "(string \<times> json) list list \<Rightarrow> (string \<times> json) list list" where
  "upto_done [] = []"
| "upto_done (r # rs) = (if chunk_done r then [r] else r # upto_done rs)"

text \<open>The \<^verbatim>\<open>message.content\<close> field of a record, empty when the record has none.\<close>

definition record_content :: "(string \<times> json) list \<Rightarrow> string" where
  "record_content chunk =
     (case map_of chunk ''message'' of
        Some (JObject msg) \<Rightarrow> (case map_of msg ''content'' of Some (JString content) \<Rightarrow> content | _ \<Rightarrow> [])
      | _ \<Rightarrow> [])"


subsection \<open>The model names\<close>

text \<open>
  An available name equals the configured one exactly, or after stripping the suffix
  \<^verbatim>\<open>:latest\<close> from the available name, or after stripping it from the configured name.
\<close>

definition spec_name_matches :: "string \<Rightarrow> string \<Rightarrow> bool" where
  "spec_name_matches name model \<longleftrightarrow>
     name = model \<or> TrimSuffix name '':latest'' = model \<or> name = TrimSuffix model '':latest''"

text \<open>The other reading: the two names are equal, or equal once both are stripped.\<close>

definition spec_name_matches_both :: "string \<Rightarrow> string \<Rightarrow> bool" where
  "spec_name_matches_both name model \<longleftrightarrow>
     name = model \<or> TrimSuffix name '':latest'' = TrimSuffix model '':latest''"

subsection \<open>The candidate jobs\<close>

text \<open>The lines of a text, trimmed, without the blank ones.\<close>

definition nonblank_lines :: "string list \<Rightarrow> string list" where
  "nonblank_lines ls = filter (\<lambda>l. l \<noteq> []) (map TrimSpace ls)"

text \<open>
  The image-file suffixes: those of the formats the specification names as supported (ICO, PNG,
  JPEG with its two suffixes, GIF, BMP and WebP), and that of SVG, an image file as well.
\<close>

definition image_suffixes :: "string list" where
  "image_suffixes =
     [''.ico'', ''.png'', ''.jpg'', ''.jpeg'', ''.gif'', ''.bmp'', ''.webp'', ''.svg'']"

definition spec_job_url :: "string \<Rightarrow> string" where
  "spec_job_url url =
     (if (\<exists>suf \<in> set image_suffixes. suffix suf url) \<or> sublist ''favicon'' url then url
      else if suffix ''/'' url then url @ ''favicon.ico''
      else url @ ''/favicon.ico'')"

definition spec_jobs :: "string \<Rightarrow> Job list" where
  "spec_jobs content = map (\<lambda>url. Job (spec_job_url url)) (nonblank_lines (Split_nl content))"

subsection \<open>The output file\<close>

text \<open>A write that succeeds appends its data to the content of the file.\<close>

definition append_write :: file_write where
  "append_write content data = (content @ data, None)"

text \<open>The lines of the matched URLs among the results, in the order of their arrival.\<close>

definition matched_lines :: "Result list \<Rightarrow> string" where
  "matched_lines rs =
     concat (map (\<lambda>r. URL r @ [CHR 0x0A]) (filter (\<lambda>r. Err r = None \<and> Match r) rs))"

text \<open>The content of a file after a run, if the run got that far and the file exists.\<close>

definition content_after :: "error + summary \<Rightarrow> string \<Rightarrow> string option" where
  "content_after r name = (case r of Inl err \<Rightarrow> None | Inr s \<Rightarrow> files s name)"

subsection \<open>The pool\<close>

text \<open>
  The jobs the workers are working on, and the URLs the run accounts for: those of the jobs not
  yet sent, in the channel and with the workers, and those of the results emitted.
\<close>

definition job_of :: "wstate \<Rightarrow> Job list" where
  "job_of w = (case w of Busy j \<Rightarrow> [j] | _ \<Rightarrow> [])"

definition busy_jobs :: "wstate list \<Rightarrow> Job list" where
  "busy_jobs ws = concat (map job_of ws)"

definition accounted :: "pool \<Rightarrow> string list" where
  "accounted s =
     map Job.URL (to_send s @ jobs s @ busy_jobs (workers s)) @ map URL (received s @ results s)"

text \<open>
  What every state of a run satisfies: every URL is accounted for once; \<^verbatim>\<open>jobs\<close> is closed only
  when every job is sent; a worker returns only when \<^verbatim>\<open>jobs\<close> is closed and empty;
  \<^verbatim>\<open>results\<close> is closed only when every worker has returned; and a result with an error is
  no match.
\<close>

definition pool_inv :: "string list \<Rightarrow> nat \<Rightarrow> pool \<Rightarrow> bool" where
  "pool_inv lines n s \<longleftrightarrow>
     mset (accounted s) = mset (map Job.URL (send_jobs lines))
     \<and> length (workers s) = n \<and> cap s = length lines
     \<and> (jobs_closed s \<longrightarrow> to_send s = [])
     \<and> (Exited \<in> set (workers s) \<longrightarrow> jobs_closed s \<and> jobs s = [])
     \<and> (results_closed s \<longrightarrow> (\<forall>w \<in> set (workers s). w = Exited))
     \<and> (\<forall>r \<in> set (received s @ results s). Err r \<noteq> None \<longrightarrow> \<not> Match r)"

section \<open>Example inputs\<close>

text \<open>The streamed body of the specification's scenario, and one that never signals its end.\<close>

definition example_body :: string where
  \<open>example_body =
     ''{"message":{"content":"Ye"}}\<newline>NOT-JSON\<newline>{"message":{"content":"s"},"done":true}\<newline>extra-garbage''\<close>

definition unfinished_body :: string where
  \<open>unfinished_body =
     ''{"message":{"content":"Ye"}}\<newline>  \<newline>NOT-JSON\<newline>{"message":{"content":"s"}}''\<close>

text \<open>
  An environment for the examples: its decoders are tables that know a few inputs, and an
  image is the list of its pixels' bytes.
\<close>

definition test_chunk :: "string \<Rightarrow> error + (string \<times> json) list" where
  \<open>test_chunk line =
     (if line = ''{"message":{"content":"Ye"}}''
        then Inr [(''message'', JObject [(''content'', JString ''Ye'')])]
      else if line = ''{"message":{"content":"s"}}''
        then Inr [(''message'', JObject [(''content'', JString ''s'')])]
      else if line = ''{"message":{"content":"s"},"done":true}''
        then Inr [(''message'', JObject [(''content'', JString ''s'')]), (''done'', JBool True)]
      else if line = ''{"message":{"content":"No"},"done":true}''
        then Inr [(''message'', JObject [(''content'', JString ''No'')]), (''done'', JBool True)]
      else Inl ''invalid character'')\<close>

definition test_Decode :: "string \<Rightarrow> error + (string \<times> string)" where
  "test_Decode data =
     (if prefix ''PNG'' data then Inr (drop 3 data, ''png'')
      else if prefix ''GIF'' data then Inr (drop 3 data, ''gif'')
      else Inl ''image: unknown format'')"

definition test_models :: "string \<Rightarrow> error + string list" where
  \<open>test_models body =
     (if body = ''{"models":[{"name":"llava:7b"},{"name":"gemma3:4b:latest"}]}''
        then Inr [''llava:7b'', ''gemma3:4b:latest'']
      else if body = ''{"models":[{"name":"m:latest"}]}''
        then Inr [''m:latest'']
      else if body = ''{"models":[{"name":"m:latest:latest"}]}''
        then Inr [''m:latest:latest'']
      else Inl ''unexpected end of JSON input'')\<close>

definition test_env :: "string env" where
  "test_env = \<lparr>image_Decode = test_Decode, png_Encode = (\<lambda>img. Inr (''PNG'' @ img)),
                json_chunk = test_chunk, json_models = test_models\<rparr>"

definition test_client :: Client where
  "test_client = NewClient ''http://localhost:11434'' ''gemma3:4b'' 30"


text \<open>The end of a run of one worker over the lines \<^verbatim>\<open>a.com\<close> and an empty one.\<close>

definition run_final :: pool where
  "run_final =
     \<lparr>to_send = [], jobs = [], jobs_closed = True, workers = [Exited], results = [],
      results_closed = True,
      received = [\<lparr>URL = ''a.com/favicon.ico'', Match = False,
                   Err = Some ''bad status for a.com/favicon.ico: 404''\<rparr>],
      cap = 2\<rparr>"

text \<open>A file system with an output file from an earlier run, and results that arrive.\<close>

definition old_files :: fs where
  "old_files = [''found.txt'' \<mapsto> ''old.example'' @ [CHR 0x0A]]"

definition two_results :: "Result list" where
  "two_results =
     [\<lparr>URL = ''a.com/favicon.ico'', Match = True, Err = None\<rparr>,
      \<lparr>URL = ''b.com/favicon.ico'', Match = False,
       Err = Some ''bad status for b.com/favicon.ico: 404''\<rparr>,
      \<lparr>URL = ''c.com/logo.png'', Match = False, Err = None\<rparr>,
      \<lparr>URL = ''d.com/favicon.ico'', Match = True, Err = None\<rparr>]"

section \<open>Facts about the strings\<close>

subsection \<open>Contains\<close>

lemma Contains_iff: "Contains s sub \<longleftrightarrow> (\<exists>pre post. s = pre @ sub @ post)"
proof (induction s)
  case Nil
  show ?case by simp
next
  case (Cons c cs)
  show ?case
  proof
    assume "Contains (c # cs) sub"
    then consider "prefix sub (c # cs)" | "Contains cs sub" by auto
    then show "\<exists>pre post. c # cs = pre @ sub @ post"
    proof cases
      case 1
      then obtain post where "c # cs = sub @ post" by (auto simp: prefix_def)
      then have "c # cs = [] @ sub @ post" by simp
      then show ?thesis by blast
    next
      case 2
      then obtain pre post where "cs = pre @ sub @ post" using Cons.IH by blast
      then have "c # cs = (c # pre) @ sub @ post" by simp
      then show ?thesis by blast
    qed
  next
    assume "\<exists>pre post. c # cs = pre @ sub @ post"
    then obtain pre post where eq: "c # cs = pre @ sub @ post" by blast
    show "Contains (c # cs) sub"
    proof (cases pre)
      case Nil
      with eq have "prefix sub (c # cs)" by (simp add: prefix_def)
      then show ?thesis by simp
    next
      case (Cons p pre')
      with eq have "cs = pre' @ sub @ post" by simp
      then have "Contains cs sub" using Cons.IH by blast
      then show ?thesis by simp
    qed
  qed
qed

subsection \<open>TrimSuffix\<close>

lemma TrimSuffix_append: "HasSuffix s suf \<Longrightarrow> TrimSuffix s suf @ suf = s"
  by (auto simp: TrimSuffix_def HasSuffix_def suffix_def)

lemma TrimSuffix_id: "\<not> HasSuffix s suf \<Longrightarrow> TrimSuffix s suf = s"
  by (simp add: TrimSuffix_def)

subsection \<open>White space and lines\<close>

lemma ws_nonempty: "[] \<notin> set ws_seqs"
  by (simp add: ws_seqs_def)

lemma ws_prefix_free: "\<forall>w \<in> set ws_seqs. \<forall>v \<in> set ws_seqs. prefix w v \<longrightarrow> w = v"
  by (simp add: ws_seqs_def)

lemma ws_suffix_free:
  "\<forall>w \<in> set (map rev ws_seqs). \<forall>v \<in> set (map rev ws_seqs). prefix w v \<longrightarrow> w = v"
  by (simp add: ws_seqs_def)

lemma ws_newline: "\<forall>w \<in> set ws_seqs. w = [CHR 0x0A] \<or> CHR 0x0A \<notin> set w"
  by (simp add: ws_seqs_def)

lemma ws_first_bytes: "\<forall>v \<in> set ws_seqs. \<forall>w \<in> set ws_seqs. hd w \<notin> set (tl v)"
  by (simp add: ws_seqs_def)


lemma strip_None: "find (\<lambda>w. w \<noteq> [] \<and> prefix w s) ws = None \<Longrightarrow> strip ws s = s"
  by (subst strip.simps) simp

lemma strip_Some:
  "find (\<lambda>w. w \<noteq> [] \<and> prefix w s) ws = Some w \<Longrightarrow> strip ws s = strip ws (drop (length w) s)"
  by (subst strip.simps) simp

lemma strip_drop_prefix:
  assumes free: "\<forall>w \<in> set ws. \<forall>v \<in> set ws. prefix w v \<longrightarrow> w = v"
    and w: "w \<in> set ws" "w \<noteq> []"
  shows "strip ws (w @ s) = strip ws s"
proof -
  from w have "\<exists>v. find (\<lambda>v. v \<noteq> [] \<and> prefix v (w @ s)) ws = Some v"
    by (cases "find (\<lambda>v. v \<noteq> [] \<and> prefix v (w @ s)) ws") (auto simp: find_None_iff)
  then obtain v where f: "find (\<lambda>v. v \<noteq> [] \<and> prefix v (w @ s)) ws = Some v" by blast
  then have v: "v \<in> set ws" "prefix v (w @ s)"
    by (auto simp: find_Some_iff)
  have "prefix w (w @ s)" by simp
  with v(2) have "prefix v w \<or> prefix w v"
    by (rule prefix_same_cases [THEN disjE]) blast+
  with free w(1) v(1) have "v = w" by blast
  with f show ?thesis by (simp add: strip_Some)
qed

lemma strip_Nil: "strip ws [] = []"
  by (subst strip.simps) (simp split: option.splits add: find_Some_iff)

lemma Split_nl_nonempty: "Split_nl s \<noteq> []"
  by (induction s) (auto split: list.splits)

lemma Split_nl_no_nl_append:
  "CHR 0x0A \<notin> set w \<Longrightarrow> Split_nl (w @ s) = (w @ hd (Split_nl s)) # tl (Split_nl s)"
proof (induction w)
  case Nil
  show ?case using Split_nl_nonempty [of s] by simp
next
  case (Cons a w)
  then show ?case by auto
qed

lemma Split_nl_append_nl: "Split_nl (x @ [CHR 0x0A]) = Split_nl x @ [[]]"
proof (induction x)
  case Nil
  show ?case by simp
next
  case (Cons a x)
  show ?case
    using Split_nl_nonempty [of x] by (simp add: Cons.IH split: list.splits)
qed

lemma Split_nl_append_no_nl:
  "CHR 0x0A \<notin> set w \<Longrightarrow>
   Split_nl (x @ w) = butlast (Split_nl x) @ [last (Split_nl x) @ w]"
proof (induction x)
  case Nil
  then show ?case
  proof (induction w)
    case Nil
    show ?case by simp
  next
    case (Cons a w)
    then show ?case by (auto split: list.splits)
  qed
next
  case (Cons a x)
  show ?case
  proof (cases "a = CHR 0x0A")
    case True
    then show ?thesis
      using Cons Split_nl_nonempty [of x] by simp
  next
    case False
    obtain y ys where sx: "Split_nl x = y # ys"
      using Split_nl_nonempty [of x] by (cases "Split_nl x") auto
    from Cons have "Split_nl (x @ w) = butlast (y # ys) @ [last (y # ys) @ w]"
      by (simp add: sx)
    with False sx show ?thesis
      by (cases ys) simp_all
  qed
qed


lemma TrimSpace_Nil: "TrimSpace [] = []"
  by (simp add: TrimSpace_def strip_Nil)

lemma TrimSpace_ws_prepend:
  assumes w: "w \<in> set ws_seqs"
  shows "TrimSpace (w @ x) = TrimSpace x"
proof -
  from w ws_nonempty have "w \<noteq> []" by auto
  with w have "strip ws_seqs (w @ x) = strip ws_seqs x"
    by (rule strip_drop_prefix [OF ws_prefix_free])
  then show ?thesis by (simp add: TrimSpace_def)
qed

lemma ws_no_longer_prefix:
  assumes none: "find (\<lambda>v. v \<noteq> [] \<and> prefix v y) ws_seqs = None"
    and y: "y \<noteq> []" and w: "w \<in> set ws_seqs"
  shows "find (\<lambda>v. v \<noteq> [] \<and> prefix v (y @ w)) ws_seqs = None"
proof (rule ccontr)
  assume "find (\<lambda>v. v \<noteq> [] \<and> prefix v (y @ w)) ws_seqs \<noteq> None"
  then obtain v where v: "v \<in> set ws_seqs" "v \<noteq> []" "prefix v (y @ w)"
    by (auto simp: find_None_iff)
  from none v(1,2) have "\<not> prefix v y"
    by (auto simp: find_None_iff)
  with v(3) obtain u where u: "v = y @ u" "prefix u w" "u \<noteq> []"
    by (auto simp: prefix_append)
  from u(2,3) have "hd u = hd w"
    by (cases u; cases w) auto
  moreover from u(1,3) y have "hd u \<in> set (tl v)"
    by (cases y; cases u) auto
  ultimately show False
    using ws_first_bytes v(1) w by auto
qed

lemma strip_ws_append:
  "w \<in> set ws_seqs \<Longrightarrow>
   strip ws_seqs (y @ w) = (if strip ws_seqs y = [] then [] else strip ws_seqs y @ w)"
proof (induction "length y" arbitrary: y rule: less_induct)
  case less
  note w = \<open>w \<in> set ws_seqs\<close>
  from w ws_nonempty have wne: "w \<noteq> []" by auto
  show ?case
  proof (cases "find (\<lambda>v. v \<noteq> [] \<and> prefix v y) ws_seqs")
    case None
    then have sy: "strip ws_seqs y = y" by (rule strip_None)
    show ?thesis
    proof (cases "y = []")
      case True
      have "strip ws_seqs (w @ []) = strip ws_seqs []"
        using w wne by (rule strip_drop_prefix [OF ws_prefix_free])
      with True show ?thesis by (simp add: strip_Nil)
    next
      case False
      from None False w have "find (\<lambda>v. v \<noteq> [] \<and> prefix v (y @ w)) ws_seqs = None"
        by (rule ws_no_longer_prefix)
      then have "strip ws_seqs (y @ w) = y @ w" by (rule strip_None)
      with sy False show ?thesis by simp
    qed
  next
    case (Some v)
    then have v: "v \<in> set ws_seqs" "v \<noteq> []" "prefix v y"
      by (auto simp: find_Some_iff)
    then obtain y' where y': "y = v @ y'" by (auto simp: prefix_def)
    have 1: "strip ws_seqs y = strip ws_seqs y'"
      unfolding y' using v(1,2) by (rule strip_drop_prefix [OF ws_prefix_free])
    have "strip ws_seqs (v @ (y' @ w)) = strip ws_seqs (y' @ w)"
      using v(1,2) by (rule strip_drop_prefix [OF ws_prefix_free])
    then have 2: "strip ws_seqs (y @ w) = strip ws_seqs (y' @ w)"
      by (simp add: y')
    from v(2) y' have "length y' < length y" by simp
    from less.hyps [OF this w] 1 2 show ?thesis by simp
  qed
qed

lemma TrimSpace_ws_append:
  assumes w: "w \<in> set ws_seqs"
  shows "TrimSpace (y @ w) = TrimSpace y"
proof (cases "strip ws_seqs y = []")
  case True
  with w show ?thesis
    by (simp add: TrimSpace_def strip_ws_append)
next
  case False
  from w have r: "rev w \<in> set (map rev ws_seqs)" "rev w \<noteq> []"
    using ws_nonempty by auto
  have "strip (map rev ws_seqs) (rev w @ rev (strip ws_seqs y))
          = strip (map rev ws_seqs) (rev (strip ws_seqs y))"
    using r by (rule strip_drop_prefix [OF ws_suffix_free])
  with False w show ?thesis
    by (simp add: TrimSpace_def strip_ws_append)
qed

lemma nonblank_lines_ws_prepend:
  assumes w: "w \<in> set ws_seqs"
  shows "nonblank_lines (Split_nl (w @ s)) = nonblank_lines (Split_nl s)"
proof (cases "w = [CHR 0x0A]")
  case True
  then show ?thesis by (simp add: nonblank_lines_def TrimSpace_Nil)
next
  case False
  with w ws_newline have "CHR 0x0A \<notin> set w" by blast
  then have "Split_nl (w @ s) = (w @ hd (Split_nl s)) # tl (Split_nl s)"
    by (rule Split_nl_no_nl_append)
  moreover obtain x xs where "Split_nl s = x # xs"
    using Split_nl_nonempty [of s] by (cases "Split_nl s") auto
  ultimately show ?thesis
    using w by (simp add: nonblank_lines_def TrimSpace_ws_prepend)
qed

lemma nonblank_lines_ws_append:
  assumes w: "w \<in> set ws_seqs"
  shows "nonblank_lines (Split_nl (s @ w)) = nonblank_lines (Split_nl s)"
proof (cases "w = [CHR 0x0A]")
  case True
  then show ?thesis by (simp add: nonblank_lines_def TrimSpace_Nil Split_nl_append_nl)
next
  case False
  with w ws_newline have "CHR 0x0A \<notin> set w" by blast
  then have 1: "Split_nl (s @ w) = butlast (Split_nl s) @ [last (Split_nl s) @ w]"
    by (rule Split_nl_append_no_nl)
  have 2: "Split_nl s = butlast (Split_nl s) @ [last (Split_nl s)]"
    using Split_nl_nonempty [of s] by simp
  have "nonblank_lines (butlast (Split_nl s) @ [last (Split_nl s) @ w])
          = nonblank_lines (butlast (Split_nl s) @ [last (Split_nl s)])"
    using w by (simp add: nonblank_lines_def TrimSpace_ws_append)
  with 1 2 show ?thesis by simp
qed

lemma nonblank_lines_strip:
  "nonblank_lines (Split_nl (strip ws_seqs s)) = nonblank_lines (Split_nl s)"
proof (induction "length s" arbitrary: s rule: less_induct)
  case less
  show ?case
  proof (cases "find (\<lambda>v. v \<noteq> [] \<and> prefix v s) ws_seqs")
    case None
    then show ?thesis by (simp add: strip_None)
  next
    case (Some v)
    then have v: "v \<in> set ws_seqs" "v \<noteq> []" "prefix v s"
      by (auto simp: find_Some_iff)
    then obtain s' where s': "s = v @ s'" by (auto simp: prefix_def)
    with v(2) have "length s' < length s" by simp
    then have "nonblank_lines (Split_nl (strip ws_seqs s')) = nonblank_lines (Split_nl s')"
      by (rule less.hyps)
    moreover have "strip ws_seqs s = strip ws_seqs s'"
      using Some s' by (simp add: strip_Some)
    ultimately show ?thesis
      using v(1) by (simp add: s' nonblank_lines_ws_prepend)
  qed
qed

lemma nonblank_lines_strip_right:
  "nonblank_lines (Split_nl (rev (strip (map rev ws_seqs) t))) = nonblank_lines (Split_nl (rev t))"
proof (induction "length t" arbitrary: t rule: less_induct)
  case less
  show ?case
  proof (cases "find (\<lambda>v. v \<noteq> [] \<and> prefix v t) (map rev ws_seqs)")
    case None
    then show ?thesis by (simp add: strip_None)
  next
    case (Some v)
    then have v: "v \<in> set (map rev ws_seqs)" "v \<noteq> []" "prefix v t"
      by (auto simp: find_Some_iff)
    then obtain t' where t': "t = v @ t'" by (auto simp: prefix_def)
    from v(1) obtain w where w: "w \<in> set ws_seqs" "v = rev w" by auto
    from v(2) t' have "length t' < length t" by simp
    then have "nonblank_lines (Split_nl (rev (strip (map rev ws_seqs) t')))
                 = nonblank_lines (Split_nl (rev t'))"
      by (rule less.hyps)
    moreover have "strip (map rev ws_seqs) t = strip (map rev ws_seqs) t'"
      using Some t' by (simp add: strip_Some)
    moreover have "rev t = rev t' @ w"
      using t' w(2) by simp
    ultimately show ?thesis
      using w(1) by (simp add: nonblank_lines_ws_append)
  qed
qed

lemma nonblank_lines_TrimSpace:
  "nonblank_lines (Split_nl (TrimSpace s)) = nonblank_lines (Split_nl s)"
  by (simp add: TrimSpace_def nonblank_lines_strip_right nonblank_lines_strip)

subsection \<open>The base64 round trip\<close>

lemma encodeStd_distinct: "distinct encodeStd" and encodeStd_length: "length encodeStd = 64"
  by (simp_all add: encodeStd_def)

lemma b64_val_char: "i < 64 \<Longrightarrow> b64_val (b64_char i) = Some i"
proof -
  assume i: "i < 64"
  have "map_of (zip encodeStd [0..<64]) (encodeStd ! i) = Some ([0..<64] ! i)"
    using encodeStd_distinct i by (intro map_of_zip_nth) (simp_all add: encodeStd_length)
  with i show ?thesis by (simp add: b64_val_def b64_char_def)
qed

lemma b64_char_not_pad: "b64_char i \<noteq> CHR ''=''"
proof -
  have "b64_char i \<in> set encodeStd"
    by (simp add: b64_char_def encodeStd_length)
  moreover have "CHR ''='' \<notin> set encodeStd"
    by (simp add: encodeStd_def)
  ultimately show ?thesis by metis
qed

lemma sextet_bounds:
  fixes x y z :: nat
  assumes "x < 256" "y < 256" "z < 256"
  shows "x div 4 < 64" "x mod 4 * 16 + y div 16 < 64" "y mod 16 * 4 + z div 64 < 64"
    "z mod 64 < 64" "x mod 4 * 16 < 64" "y mod 16 * 4 < 64"
proof -
  have a: "x mod 4 < 4" "y mod 16 < 16" by simp_all
  from assms have b: "y div 16 < 16" "z div 64 < 4" "x div 4 < 64"
    by (simp_all add: less_mult_imp_div_less)
  show "x div 4 < 64" by (rule b)
  show "x mod 4 * 16 + y div 16 < 64" using a b by linarith
  show "y mod 16 * 4 + z div 64 < 64" using a b by linarith
  show "z mod 64 < 64" by simp
  show "x mod 4 * 16 < 64" using a by linarith
  show "y mod 16 * 4 < 64" using a by linarith
qed

lemma sextet_bytes:
  fixes x y z :: nat
  assumes "x < 256" "y < 256" "z < 256"
  shows "x div 4 * 4 + (x mod 4 * 16 + y div 16) div 16 = x"
    "(x mod 4 * 16 + y div 16) mod 16 * 16 + (y mod 16 * 4 + z div 64) div 4 = y"
    "(y mod 16 * 4 + z div 64) mod 4 * 64 + z mod 64 = z"
proof -
  from assms have b: "y div 16 < 16" "z div 64 < 4"
    by (simp_all add: less_mult_imp_div_less)
  have 1: "(x mod 4 * 16 + y div 16) div 16 = x mod 4" using b by simp
  have 2: "(x mod 4 * 16 + y div 16) mod 16 = y div 16" using b by simp
  have 3: "(y mod 16 * 4 + z div 64) div 4 = y mod 16" using b by simp
  have 4: "(y mod 16 * 4 + z div 64) mod 4 = z div 64" using b by simp
  show "x div 4 * 4 + (x mod 4 * 16 + y div 16) div 16 = x" by (simp add: 1)
  show "(x mod 4 * 16 + y div 16) mod 16 * 16 + (y mod 16 * 4 + z div 64) div 4 = y"
    using b by (simp add: 2 3)
  show "(y mod 16 * 4 + z div 64) mod 4 * 64 + z mod 64 = z" using b by (simp add: 4)
qed

lemma sextet_padded:
  fixes x y :: nat
  assumes "y < 256"
  shows "(x mod 4 * 16) mod 16 = 0" "x div 4 * 4 + (x mod 4 * 16) div 16 = x"
    "(y mod 16 * 4) mod 4 = 0"
    "(x mod 4 * 16 + y div 16) mod 16 * 16 + (y mod 16 * 4) div 4 = y"
proof -
  from assms have b: "y div 16 < 16"
    by (simp_all add: less_mult_imp_div_less)
  have 2: "(x mod 4 * 16 + y div 16) mod 16 = y div 16" using b by simp
  show "(x mod 4 * 16) mod 16 = 0" by simp
  show "x div 4 * 4 + (x mod 4 * 16) div 16 = x" by simp
  show "(y mod 16 * 4) mod 4 = 0" by simp
  show "(x mod 4 * 16 + y div 16) mod 16 * 16 + (y mod 16 * 4) div 4 = y"
    using b by (simp add: 2)
qed


lemma char_of_of_char_nat: "char_of (of_char c :: nat) = c"
  by simp

lemma Decode_Encode: "DecodeString (EncodeToString bs) = Some bs"
proof (induction bs rule: EncodeToString.induct)
  case 1
  show ?case by simp
next
  case (2 a)
  have x: "(of_char a :: nat) < 256" by simp
  show ?case
    using sextet_bounds(1,5) [OF x x x]
    by (simp add: Let_def b64_val_char sextet_padded [OF x])
next
  case (3 a b)
  have x: "(of_char a :: nat) < 256" and y: "(of_char b :: nat) < 256" by simp_all
  show ?case
    using sextet_bounds(1,2,6) [OF x y y] sextet_bytes(1) [OF x y y]
    by (simp add: Let_def b64_val_char b64_char_not_pad sextet_padded [OF y])
next
  case (4 a b c rest)
  have x: "(of_char a :: nat) < 256" and y: "(of_char b :: nat) < 256"
    and z: "(of_char c :: nat) < 256" by simp_all
  show ?case
    using sextet_bounds(1,2,3,4) [OF x y z] sextet_bytes [OF x y z] 4
    by (simp add: Let_def b64_val_char b64_char_not_pad)
qed

section \<open>The comparison client\<close>

lemma write_content_append: "write_content acc chunk = acc @ record_content chunk"
  by (simp add: write_content_def record_content_def split: option.splits json.splits)

lemma parsed_records_Cons:
  "parsed_records E (l # ls) =
     (if TrimSpace l = [] then parsed_records E ls
      else (case json_chunk E (TrimSpace l) of
              Inl err \<Rightarrow> parsed_records E ls
            | Inr chunk \<Rightarrow> chunk # parsed_records E ls))"
  by (simp add: parsed_records_def split: sum.splits)

lemma parsed_records_Nil: "parsed_records E [] = []"
  by (simp add: parsed_records_def)

lemma read_stream_spec:
  "read_stream E ls acc = acc @ concat (map record_content (upto_done (parsed_records E ls)))"
proof (induction ls arbitrary: acc)
  case Nil
  show ?case by (simp add: parsed_records_Nil)
next
  case (Cons l ls)
  show ?case
    by (simp add: parsed_records_Cons Cons.IH write_content_append Let_def split: sum.splits)
qed

lemma upto_done_none: "\<forall>r \<in> set rs. \<not> chunk_done r \<Longrightarrow> upto_done rs = rs"
  by (induction rs) auto


text \<open>
  Claim C3. Whatever text the stream accumulates, the comparison reports a match exactly when
  the text contains \<^verbatim>\<open>Yes\<close> as a substring, in this case of the letters: the texts
  \<^verbatim>\<open>No\<close>, \<^verbatim>\<open>yes\<close> and the empty text are no match.
\<close>

theorem classifier_match_iff_contains_Yes:
  "(fst (CompareFaviconsChatAPI E c b t (Response status body))
      \<longleftrightarrow> (\<exists>pre post. read_stream E (Split_nl body) [] = pre @ ''Yes'' @ post))
   \<and> (Contains answer ''Yes'' \<longleftrightarrow> (\<exists>pre post. answer = pre @ ''Yes'' @ post))
   \<and> \<not> Contains ''No'' ''Yes'' \<and> \<not> Contains [] ''Yes'' \<and> \<not> Contains ''yes'' ''Yes''"
proof -
  have "fst (CompareFaviconsChatAPI E c b t (Response status body))
          = Contains (read_stream E (Split_nl body) []) ''Yes''"
    by (simp add: CompareFaviconsChatAPI_def)
  then have 1: "fst (CompareFaviconsChatAPI E c b t (Response status body))
      \<longleftrightarrow> (\<exists>pre post. read_stream E (Split_nl body) [] = pre @ ''Yes'' @ post)"
    by (simp only: Contains_iff)
  have 2: "Contains answer ''Yes'' \<longleftrightarrow> (\<exists>pre post. answer = pre @ ''Yes'' @ post)"
    by (rule Contains_iff)
  have 3: "\<not> Contains ''No'' ''Yes''" and 4: "\<not> Contains [] ''Yes''"
    and 5: "\<not> Contains ''yes'' ''Yes''"
    by simp_all
  from 1 2 3 4 5 show ?thesis by blast
qed

theorem classifier_match_iff_contains_Yes_witness:
  \<open>fst (CompareFaviconsChatAPI test_env test_client ''QQ=='' ''Qg=='' (Response 200 example_body))
   \<and> read_stream test_env (Split_nl example_body) [] = [] @ ''Yes'' @ []
   \<and> \<not> fst (CompareFaviconsChatAPI test_env test_client ''QQ=='' ''Qg==''
            (Response 200 ''{"message":{"content":"No"},"done":true}''))\<close>
proof -
  have a: "read_stream test_env (Split_nl example_body) [] = [] @ ''Yes'' @ []"
    by code_simp
  have b: \<open>\<not> (\<exists>pre post. read_stream test_env (Split_nl ''{"message":{"content":"No"},"done":true}'') []
              = pre @ ''Yes'' @ post)\<close>
  proof -
    have \<open>read_stream test_env (Split_nl ''{"message":{"content":"No"},"done":true}'') [] = ''No''\<close>
      by code_simp
    moreover have "\<not> Contains ''No'' ''Yes''" by simp
    ultimately show ?thesis by (simp only: Contains_iff [symmetric] not_False_eq_True)
  qed
  from a have "\<exists>pre post. read_stream test_env (Split_nl example_body) [] = pre @ ''Yes'' @ post"
    by blast
  with a b show ?thesis
    using classifier_match_iff_contains_Yes [of test_env test_client "''QQ==''" "''Qg==''" 200]
    by blast
qed

text \<open>
  Claim C9. The comparison never looks at the status code of the response: every response that
  arrives gives the verdict of its body and no error, the same as with status 200.
\<close>

theorem compare_ignores_status_code:
  "CompareFaviconsChatAPI E c b t (Response status body)
     = (Contains (read_stream E (Split_nl body) []) ''Yes'', None)
   \<and> CompareFaviconsChatAPI E c b t (Response status body)
     = CompareFaviconsChatAPI E c b t (Response 200 body)"
  by (simp add: CompareFaviconsChatAPI_def)

theorem compare_ignores_status_code_witness:
  "CompareFaviconsChatAPI test_env test_client ''QQ=='' ''Qg=='' (Response 500 example_body)
     = (True, None)"
proof -
  have "Contains (read_stream test_env (Split_nl example_body) []) ''Yes''"
    by code_simp
  then show ?thesis
    using compare_ignores_status_code [of test_env test_client "''QQ==''" "''Qg==''" 500 example_body]
    by simp
qed



text \<open>
  Claim C10. When no record of the body has a true \<^verbatim>\<open>done\<close> field, the loop consumes every
  line: the text is the concatenation of the contents of all parsed records, and the result is
  the verdict of that text with no error.
\<close>

theorem missing_done_is_not_a_failure:
  assumes "\<forall>chunk \<in> set (parsed_records E (Split_nl body)). \<not> chunk_done chunk"
  shows "read_stream E (Split_nl body) []
           = concat (map record_content (parsed_records E (Split_nl body)))
         \<and> CompareFaviconsChatAPI E c b t (Response status body)
           = (Contains (concat (map record_content (parsed_records E (Split_nl body)))) ''Yes'',
              None)"
  using assms by (simp add: read_stream_spec upto_done_none CompareFaviconsChatAPI_def)

theorem missing_done_is_not_a_failure_witness:
  \<open>parsed_records test_env (Split_nl unfinished_body)
     = [[(''message'', JObject [(''content'', JString ''Ye'')])],
        [(''message'', JObject [(''content'', JString ''s'')])]]
   \<and> read_stream test_env (Split_nl unfinished_body) [] = ''Yes''
   \<and> CompareFaviconsChatAPI test_env test_client ''QQ=='' ''Qg=='' (Response 200 unfinished_body)
     = (True, None)\<close>
proof -
  have recs: \<open>parsed_records test_env (Split_nl unfinished_body)
     = [[(''message'', JObject [(''content'', JString ''Ye'')])],
        [(''message'', JObject [(''content'', JString ''s'')])]]\<close>
    by code_simp
  have h: "\<forall>chunk \<in> set (parsed_records test_env (Split_nl unfinished_body)). \<not> chunk_done chunk"
    by (simp add: recs chunk_done_def)
  have v: "concat (map record_content (parsed_records test_env (Split_nl unfinished_body))) = ''Yes''"
    by (simp add: recs record_content_def write_content_def)
  show ?thesis
    using recs v
      missing_done_is_not_a_failure [OF h, of test_client "''QQ==''" "''Qg==''" 200]
    by simp
qed

section \<open>The model-availability check\<close>

lemma name_matches_iff:
  "name_matches name model \<longleftrightarrow>
     name = model \<or> TrimSuffix name '':latest'' = model
     \<or> (name = TrimSuffix model '':latest'' \<and> \<not> HasSuffix name '':latest'')"
proof (cases "HasSuffix name '':latest''")
  case n: True
  show ?thesis
  proof (cases "HasSuffix model '':latest''")
    case True
    have "TrimSuffix model '':latest'' = TrimSuffix name '':latest'' \<Longrightarrow> name = model"
      using TrimSuffix_append [OF n] TrimSuffix_append [OF True] by metis
    with n True show ?thesis by (auto simp: name_matches_def)
  next
    case False
    with n show ?thesis by (auto simp: name_matches_def)
  qed
next
  case n: False
  then show ?thesis
    by (cases "HasSuffix model '':latest''") (auto simp: name_matches_def TrimSuffix_id)
qed

lemma find_model_fst:
  "fst (find_model model names avail) \<longleftrightarrow> (\<exists>name \<in> set names. name_matches name model)"
  by (induction names arbitrary: avail) auto

lemma find_model_not_found:
  "\<not> fst (find_model model names avail) \<Longrightarrow> snd (find_model model names avail) = avail @ names"
  by (induction names arbitrary: avail) (auto split: if_splits)

lemma CheckModelExists_ok:
  "json_models E body = Inr names \<Longrightarrow>
   CheckModelExists E c (Response 200 body) = None
     \<longleftrightarrow> fst (find_model (Model c) names [])"
  by (cases "find_model (Model c) names []") (auto simp: CheckModelExists_def split: bool.splits)

text \<open>
  Claim C4, as amended. When the listing is read, the check succeeds exactly when some available
  name equals the configured name, or equals it once \<^verbatim>\<open>:latest\<close> is stripped from the available
  name, or does not itself end in \<^verbatim>\<open>:latest\<close> and equals the configured name stripped of
  \<^verbatim>\<open>:latest\<close>. The configured name \<^verbatim>\<open>gemma3:4b\<close> matches \<^verbatim>\<open>gemma3:4b:latest\<close> and
  \<^verbatim>\<open>gemma3:4b\<close>; \<^verbatim>\<open>gemma3:9b\<close> matches neither.
\<close>

theorem model_check_succeeds_iff:
  assumes "json_models E body = Inr names"
  shows "(CheckModelExists E c (Response 200 body) = None
          \<longleftrightarrow> (\<exists>name \<in> set names.
                 name = Model c \<or> TrimSuffix name '':latest'' = Model c
                 \<or> (name = TrimSuffix (Model c) '':latest'' \<and> \<not> HasSuffix name '':latest'')))
         \<and> name_matches ''gemma3:4b:latest'' ''gemma3:4b''
         \<and> name_matches ''gemma3:4b'' ''gemma3:4b''
         \<and> \<not> name_matches ''gemma3:4b:latest'' ''gemma3:9b''
         \<and> \<not> name_matches ''gemma3:4b'' ''gemma3:9b''"
proof -
  have 1: "name_matches ''gemma3:4b:latest'' ''gemma3:4b''"
    by (simp add: name_matches_def HasSuffix_def TrimSuffix_def suffix_def)
  have 2: "name_matches ''gemma3:4b'' ''gemma3:4b''"
    by (simp add: name_matches_def)
  have 3: "\<not> name_matches ''gemma3:4b:latest'' ''gemma3:9b''"
    by code_simp
  have 4: "\<not> name_matches ''gemma3:4b'' ''gemma3:9b''"
    by code_simp
  show ?thesis
    using 1 2 3 4 by (simp add: CheckModelExists_ok [OF assms] find_model_fst name_matches_iff)
qed


theorem model_check_succeeds_iff_witness:
  \<open>json_models test_env ''{"models":[{"name":"llava:7b"},{"name":"gemma3:4b:latest"}]}''
      = Inr [''llava:7b'', ''gemma3:4b:latest'']
   \<and> CheckModelExists test_env test_client
        (Response 200 ''{"models":[{"name":"llava:7b"},{"name":"gemma3:4b:latest"}]}'') = None
   \<and> CheckModelExists test_env (NewClient ''http://localhost:11434'' ''gemma3:9b'' 30)
        (Response 200 ''{"models":[{"name":"llava:7b"},{"name":"gemma3:4b:latest"}]}'') \<noteq> None\<close>
proof -
  have h: \<open>json_models test_env ''{"models":[{"name":"llava:7b"},{"name":"gemma3:4b:latest"}]}''
      = Inr [''llava:7b'', ''gemma3:4b:latest'']\<close>
    by (simp add: test_env_def test_models_def)
  have a: "\<exists>name \<in> set [''llava:7b'', ''gemma3:4b:latest''].
             name = Model test_client \<or> TrimSuffix name '':latest'' = Model test_client
             \<or> (name = TrimSuffix (Model test_client) '':latest'' \<and> \<not> HasSuffix name '':latest'')"
    by code_simp
  have b: "\<not> (\<exists>name \<in> set [''llava:7b'', ''gemma3:4b:latest''].
             name = Model (NewClient ''http://localhost:11434'' ''gemma3:9b'' 30)
             \<or> TrimSuffix name '':latest'' = Model (NewClient ''http://localhost:11434'' ''gemma3:9b'' 30)
             \<or> (name = TrimSuffix (Model (NewClient ''http://localhost:11434'' ''gemma3:9b'' 30)) '':latest''
                \<and> \<not> HasSuffix name '':latest''))"
    by code_simp
  from h a b show ?thesis
    using model_check_succeeds_iff [OF h, of test_client]
      model_check_succeeds_iff [OF h, of "NewClient ''http://localhost:11434'' ''gemma3:9b'' 30"]
    by blast
qed

text \<open>
  The claim as the specification words it fails for names with two suffixes. The configured
  name \<^verbatim>\<open>m:latest:latest\<close>, stripped of one suffix, equals the available name \<^verbatim>\<open>m:latest\<close>, and
  the check reports the model missing. Read as a comparison of both names stripped, it fails
  the other way round: the available name \<^verbatim>\<open>m:latest:latest\<close> is accepted for the configured
  name \<^verbatim>\<open>m:latest\<close>, and the two differ when both are stripped.
\<close>

theorem model_check_counterexample:
  \<open>CheckModelExists test_env (NewClient ''http://localhost:11434'' ''m:latest:latest'' 30)
       (Response 200 ''{"models":[{"name":"m:latest"}]}'') \<noteq> None
   \<and> spec_name_matches ''m:latest'' ''m:latest:latest''
   \<and> CheckModelExists test_env (NewClient ''http://localhost:11434'' ''m:latest'' 30)
       (Response 200 ''{"models":[{"name":"m:latest:latest"}]}'') = None
   \<and> \<not> spec_name_matches_both ''m:latest:latest'' ''m:latest''\<close>
  by code_simp
section \<open>The download\<close>



text \<open>
  Claim C7. When the fetched bytes decode as PNG, the payload is the base64 text of these very
  bytes, and decodes back to them; for any other format it is the base64 text of the bytes the
  PNG encoder writes for the decoded pixels.
\<close>

theorem png_bytes_reused_verbatim:
  "(image_Decode E data = Inr (img, ''png'')
      \<longrightarrow> DownloadImageAsBase64 E (Response 200 data) url = Inr (EncodeToString data)
          \<and> DecodeString (EncodeToString data) = Some data)
   \<and> (image_Decode E data = Inr (img, format) \<and> format \<noteq> ''png'' \<and> png_Encode E img = Inr buf
      \<longrightarrow> DownloadImageAsBase64 E (Response 200 data) url = Inr (EncodeToString buf)
          \<and> DecodeString (EncodeToString buf) = Some buf)"
  by (simp add: DownloadImageAsBase64_def Decode_Encode)

theorem png_bytes_reused_verbatim_witness:
  "image_Decode test_env ''PNGabcd'' = Inr (''abcd'', ''png'')
   \<and> DownloadImageAsBase64 test_env (Response 200 ''PNGabcd'') ''a.com/favicon.ico''
       = Inr ''UE5HYWJjZA==''
   \<and> DecodeString ''UE5HYWJjZA=='' = Some ''PNGabcd''
   \<and> image_Decode test_env ''GIFabcd'' = Inr (''abcd'', ''gif'')
   \<and> png_Encode test_env ''abcd'' = Inr ''PNGabcd''
   \<and> DownloadImageAsBase64 test_env (Response 200 ''GIFabcd'') ''a.com/favicon.ico''
       = Inr ''UE5HYWJjZA==''"
proof -
  have d1: "image_Decode test_env ''PNGabcd'' = Inr (''abcd'', ''png'')"
    by (simp add: test_env_def test_Decode_def)
  have d2: "image_Decode test_env ''GIFabcd'' = Inr (''abcd'', ''gif'')"
    by (simp add: test_env_def test_Decode_def)
  have e: "png_Encode test_env ''abcd'' = Inr ''PNGabcd''"
    by (simp add: test_env_def)
  have b: "EncodeToString ''PNGabcd'' = ''UE5HYWJjZA==''"
    by code_simp
  have n: "''gif'' \<noteq> ''png''" by simp
  from png_bytes_reused_verbatim [of test_env "''PNGabcd''" "''abcd''" "''a.com/favicon.ico''"] d1
  have 1: "DownloadImageAsBase64 test_env (Response 200 ''PNGabcd'') ''a.com/favicon.ico''
             = Inr (EncodeToString ''PNGabcd'')
           \<and> DecodeString (EncodeToString ''PNGabcd'') = Some ''PNGabcd''"
    by blast
  from png_bytes_reused_verbatim [of test_env "''GIFabcd''" "''abcd''" "''a.com/favicon.ico''"
      "''gif''" "''PNGabcd''"] d2 e n
  have 2: "DownloadImageAsBase64 test_env (Response 200 ''GIFabcd'') ''a.com/favicon.ico''
             = Inr (EncodeToString ''PNGabcd'')"
    by blast
  from 1 [unfolded b] 2 [unfolded b] d1 d2 e show ?thesis by blast
qed

section \<open>The candidate jobs\<close>

lemma send_jobs_nonblank: "send_jobs ls = map (\<lambda>url. Job (favicon_url url)) (nonblank_lines ls)"
  by (induction ls) (simp_all add: nonblank_lines_def Let_def)

lemma dispatch_lines:
  "dispatch content = map (\<lambda>url. Job (favicon_url url)) (nonblank_lines (Split_nl content))"
  by (simp add: dispatch_def read_lines_def send_jobs_nonblank nonblank_lines_TrimSpace)

lemma Contains_sublist: "Contains s sub \<longleftrightarrow> sublist sub s"
  by (simp only: Contains_iff sublist_def)

text \<open>
  The suffix test of the sending loop knows six of the eight image-file suffixes: away from
  \<^verbatim>\<open>.bmp\<close> and \<^verbatim>\<open>.webp\<close> the URL it sends is the one the specification describes.
\<close>

lemma favicon_url_spec:
  "\<not> suffix ''.bmp'' url \<Longrightarrow> \<not> suffix ''.webp'' url \<Longrightarrow> favicon_url url = spec_job_url url"
  by (simp add: favicon_url_def spec_job_url_def image_suffixes_def HasSuffix_def Contains_sublist)

lemma dispatch_spec:
  assumes "\<forall>url \<in> set (nonblank_lines (Split_nl content)).
             \<not> suffix ''.bmp'' url \<and> \<not> suffix ''.webp'' url"
  shows "dispatch content = spec_jobs content"
  using assms by (simp add: dispatch_lines spec_jobs_def favicon_url_spec)

text \<open>
  Claim C5. For every input text the jobs sent are those of its lines, split at line feeds,
  trimmed, the blank ones skipped, each with \<^verbatim>\<open>/favicon.ico\<close> appended (\<^verbatim>\<open>favicon.ico\<close> after a
  final \<^verbatim>\<open>/\<close>) unless the sending loop finds one of its six suffixes at the end of the URL or
  \<^verbatim>\<open>favicon\<close> in it. These are the jobs the specification describes whenever no line ends in
  \<^verbatim>\<open>.bmp\<close> or \<^verbatim>\<open>.webp\<close>; so the lines \<^verbatim>\<open>a.com\<close>, \<^verbatim>\<open>b.com/\<close>, an empty line and
  \<^verbatim>\<open>c.com/logo.png\<close> give the three jobs of the scenario. For a line that ends in \<^verbatim>\<open>.bmp\<close> or
  \<^verbatim>\<open>.webp\<close> the source departs from the specification: the URL has an image-file suffix and
  should stay as it is, and the loop appends \<^verbatim>\<open>/favicon.ico\<close> to it. The loop also compares
  the letters as they are written: it appends to a URL that ends in \<^verbatim>\<open>.PNG\<close>.
\<close>

theorem jobs_from_input_text:
  "dispatch content = map (\<lambda>url. Job (favicon_url url)) (nonblank_lines (Split_nl content))
   \<and> ((\<forall>url \<in> set (nonblank_lines (Split_nl content)).
          \<not> suffix ''.bmp'' url \<and> \<not> suffix ''.webp'' url)
       \<longrightarrow> dispatch content = spec_jobs content)
   \<and> send_jobs [''a.com'', ''b.com/'', '''', ''c.com/logo.png'']
       = [Job ''a.com/favicon.ico'', Job ''b.com/favicon.ico'', Job ''c.com/logo.png'']
   \<and> dispatch ''a.com\<newline>b.com/\<newline>\<newline>c.com/logo.png\<newline>''
       = [Job ''a.com/favicon.ico'', Job ''b.com/favicon.ico'', Job ''c.com/logo.png'']
   \<and> dispatch ''z.org/a.bmp'' = [Job ''z.org/a.bmp/favicon.ico'']
   \<and> spec_jobs ''z.org/a.bmp'' = [Job ''z.org/a.bmp'']
   \<and> dispatch ''z.org/a.webp'' = [Job ''z.org/a.webp/favicon.ico'']
   \<and> spec_jobs ''z.org/a.webp'' = [Job ''z.org/a.webp'']
   \<and> dispatch ''z.org/LOGO.PNG'' = [Job ''z.org/LOGO.PNG/favicon.ico'']"
proof -
  have 1: "dispatch content
             = map (\<lambda>url. Job (favicon_url url)) (nonblank_lines (Split_nl content))"
    by (rule dispatch_lines)
  have 2: "(\<forall>url \<in> set (nonblank_lines (Split_nl content)).
              \<not> suffix ''.bmp'' url \<and> \<not> suffix ''.webp'' url)
           \<longrightarrow> dispatch content = spec_jobs content"
    by (blast intro: dispatch_spec)
  have 3: "send_jobs [''a.com'', ''b.com/'', '''', ''c.com/logo.png'']
       = [Job ''a.com/favicon.ico'', Job ''b.com/favicon.ico'', Job ''c.com/logo.png'']"
    by code_simp
  have 4: "dispatch ''a.com\<newline>b.com/\<newline>\<newline>c.com/logo.png\<newline>''
       = [Job ''a.com/favicon.ico'', Job ''b.com/favicon.ico'', Job ''c.com/logo.png'']"
    by code_simp
  have 5: "dispatch ''z.org/a.bmp'' = [Job ''z.org/a.bmp/favicon.ico'']"
    by code_simp
  have 6: "spec_jobs ''z.org/a.bmp'' = [Job ''z.org/a.bmp'']"
    by code_simp
  have 7: "dispatch ''z.org/a.webp'' = [Job ''z.org/a.webp/favicon.ico'']"
    by code_simp
  have 8: "spec_jobs ''z.org/a.webp'' = [Job ''z.org/a.webp'']"
    by code_simp
  have 9: "dispatch ''z.org/LOGO.PNG'' = [Job ''z.org/LOGO.PNG/favicon.ico'']"
    by code_simp
  from 1 2 3 4 5 6 7 8 9 show ?thesis by blast
qed

theorem jobs_from_input_text_witness:
  "nonblank_lines (Split_nl (''  x.org  '' @ [CHR 0x0D, CHR 0x0A, CHR 0x0A, CHR 0x09]
       @ ''y.org/favicon.png'' @ [CHR 0x0A] @ ''z.org/a.svg''))
     = [''x.org'', ''y.org/favicon.png'', ''z.org/a.svg'']
   \<and> spec_jobs (''  x.org  '' @ [CHR 0x0D, CHR 0x0A, CHR 0x0A, CHR 0x09]
       @ ''y.org/favicon.png'' @ [CHR 0x0A] @ ''z.org/a.svg'')
     = [Job ''x.org/favicon.ico'', Job ''y.org/favicon.png'', Job ''z.org/a.svg'']"
proof -
  let ?text = "''  x.org  '' @ [CHR 0x0D, CHR 0x0A, CHR 0x0A, CHR 0x09]
       @ ''y.org/favicon.png'' @ [CHR 0x0A] @ ''z.org/a.svg''"
  have l: "nonblank_lines (Split_nl ?text) = [''x.org'', ''y.org/favicon.png'', ''z.org/a.svg'']"
    by code_simp
  have h: "\<forall>url \<in> set (nonblank_lines (Split_nl ?text)).
             \<not> suffix ''.bmp'' url \<and> \<not> suffix ''.webp'' url"
    unfolding l by code_simp
  have d: "dispatch ?text
             = [Job ''x.org/favicon.ico'', Job ''y.org/favicon.png'', Job ''z.org/a.svg'']"
    by code_simp
  from jobs_from_input_text [of ?text] h
  have "dispatch ?text = spec_jobs ?text" by blast
  with d l show ?thesis by simp
qed

section \<open>The output file\<close>

lemma matched_lines_Nil: "matched_lines [] = []"
  by (simp add: matched_lines_def)

lemma matched_lines_Cons:
  "matched_lines (r # rs) =
     (if Err r = None \<and> Match r then URL r @ [CHR 0x0A] @ matched_lines rs else matched_lines rs)"
  by (simp add: matched_lines_def)

lemma collect_results_append:
  "collect_results wr outFile (rs @ rs') s
     = collect_results wr outFile rs' (collect_results wr outFile rs s)"
  by (induction rs arbitrary: s) (simp_all add: Let_def)

lemma append_write_apply: "append_write content data = (content @ data, None)"
  by (simp add: append_write_def)

lemma collect_results_file:
  assumes f: "files s name = Some content"
  shows "files (collect_results append_write (Some name) rs s) name
           = Some (content @ matched_lines rs)"
  using f
proof (induction rs arbitrary: s content)
  case Nil
  then show ?case by (simp add: matched_lines_Nil)
next
  case (Cons r rs)
  show ?case
  proof (cases "Err r = None \<and> Match r")
    case True
    let ?s2 = "s\<lparr>matchCount := matchCount s + 1, stdout := stdout s @ URL r @ [CHR 0x0A],
                  files := (files s)(name \<mapsto> content @ URL r @ [CHR 0x0A])\<rparr>"
    have "files ?s2 name = Some (content @ URL r @ [CHR 0x0A])" by simp
    then have "files (collect_results append_write (Some name) rs ?s2) name
                 = Some ((content @ URL r @ [CHR 0x0A]) @ matched_lines rs)"
      by (rule Cons.IH)
    moreover have "collect_results append_write (Some name) (r # rs) s
                     = collect_results append_write (Some name) rs ?s2"
      using True Cons.prems by (simp add: Fprintln_def Let_def append_write_apply)
    ultimately show ?thesis
      using True by (simp add: matched_lines_Cons)
  next
    case False
    with Cons show ?thesis
      by (auto simp: matched_lines_Cons)
  qed
qed

lemma collect_results_other_files:
  "name' \<noteq> name \<Longrightarrow> files (collect_results wr (Some name) rs s) name' = files s name'"
  by (induction rs arbitrary: s) (auto simp: Fprintln_def Let_def split: option.splits prod.splits)

lemma collect_results_stdout:
  "stdout (collect_results wr outFile rs s) = stdout s @ matched_lines rs"
  by (induction rs arbitrary: s) (auto simp: matched_lines_Nil matched_lines_Cons Let_def split: option.splits)

text \<open>
  Claim C8, as amended. When an output file is configured and its creation and its writes
  succeed, the file holds after the run one line for each matched URL, in the order of arrival
  and with nothing else: what the file held before the run is gone. Results that arrive later
  only add lines after those written, and no other file changes.
\<close>

theorem output_file_created_then_appended:
  assumes "output \<noteq> []" and "\<forall>content data. wr content data = (content @ data, None)"
  shows "content_after (report wr None fs0 output rs) output = Some (matched_lines rs)
         \<and> content_after (report wr None fs0 output (rs @ rs')) output
             = Some (matched_lines rs @ matched_lines rs')
         \<and> (\<forall>name. name \<noteq> output \<longrightarrow> content_after (report wr None fs0 output rs) name = fs0 name)"
proof -
  let ?s0 = "\<lparr>matchCount = 0, errorCount = 0, stdout = [], files = fs0(output \<mapsto> [])\<rparr>"
  have r: "report wr None fs0 output rs = Inr (collect_results wr (Some output) rs ?s0)" for rs
    using assms(1) by (simp add: report_def prepare_output_def os_Create_def)
  have f: "files ?s0 output = Some []" by simp
  have w: "wr = append_write"
    using assms(2) by (intro ext) (simp add: append_write_def)
  have c: "files (collect_results wr (Some output) rs ?s0) output = Some ([] @ matched_lines rs)" for rs
    unfolding w using f by (rule collect_results_file)
  have m: "matched_lines (rs @ rs') = matched_lines rs @ matched_lines rs'"
    by (simp add: matched_lines_def)
  show ?thesis
    using c [of rs] c [of "rs @ rs'"]
    by (simp add: r content_after_def m collect_results_other_files)
qed

theorem output_file_created_then_appended_witness:
  "''found.txt'' \<noteq> []
   \<and> content_after (report append_write None old_files ''found.txt'' two_results) ''found.txt''
       = Some (''a.com/favicon.ico'' @ [CHR 0x0A] @ ''d.com/favicon.ico'' @ [CHR 0x0A])
   \<and> content_after (report append_write None old_files ''found.txt'' two_results) ''other.txt''
       = None"
proof -
  have h1: "''found.txt'' \<noteq> []" by simp
  have h2: "\<forall>content data. append_write content data = (content @ data, None)"
    by (simp add: append_write_def)
  have m: "matched_lines two_results
             = ''a.com/favicon.ico'' @ [CHR 0x0A] @ ''d.com/favicon.ico'' @ [CHR 0x0A]"
    by (simp add: two_results_def matched_lines_def)
  have o: "old_files ''other.txt'' = None" by (simp add: old_files_def)
  from output_file_created_then_appended [OF h1 h2, of old_files two_results "[]"] m o
  show ?thesis by simp
qed

text \<open>
  The claim as the specification words it fails for a file that exists: \<^verbatim>\<open>os.Create\<close>
  truncates it, and after one match the earlier line is not in the file.
\<close>

theorem output_file_counterexample:
  "content_after
     (report append_write None old_files ''found.txt''
        [\<lparr>URL = ''a.com/favicon.ico'', Match = True, Err = None\<rparr>]) ''found.txt''
     = Some (''a.com/favicon.ico'' @ [CHR 0x0A])
   \<and> old_files ''found.txt'' = Some (''old.example'' @ [CHR 0x0A])
   \<and> content_after
     (report append_write None old_files ''found.txt''
        [\<lparr>URL = ''a.com/favicon.ico'', Match = True, Err = None\<rparr>]) ''found.txt''
     \<noteq> Some ((''old.example'' @ [CHR 0x0A]) @ ''a.com/favicon.ico'' @ [CHR 0x0A])"
  by (simp add: content_after_def report_def prepare_output_def os_Create_def Fprintln_def
      append_write_def old_files_def Let_def)

section \<open>The pool\<close>

lemma busy_jobs_update:
  "i < length ws \<Longrightarrow>
   mset (busy_jobs (ws[i := w])) + mset (job_of (ws ! i)) = mset (busy_jobs ws) + mset (job_of w)"
proof (induction ws arbitrary: i)
  case Nil
  then show ?case by simp
next
  case (Cons a ws)
  show ?case
  proof (cases i)
    case 0
    then show ?thesis by (simp add: busy_jobs_def)
  next
    case (Suc k)
    with Cons.prems have "k < length ws" by simp
    from Cons.IH [OF this] Suc show ?thesis
      by (simp add: busy_jobs_def)
  qed
qed

lemma busy_jobs_recv:
  "i < length ws \<Longrightarrow> ws ! i = Idle \<Longrightarrow>
   mset (busy_jobs (ws[i := Busy j])) = add_mset j (mset (busy_jobs ws))"
  using busy_jobs_update [of i ws "Busy j"] by (simp add: job_of_def)

lemma busy_jobs_emit:
  "i < length ws \<Longrightarrow> ws ! i = Busy j \<Longrightarrow>
   add_mset j (mset (busy_jobs (ws[i := Idle]))) = mset (busy_jobs ws)"
  using busy_jobs_update [of i ws Idle] by (simp add: job_of_def)

lemma busy_jobs_exit:
  "i < length ws \<Longrightarrow> ws ! i = Idle \<Longrightarrow> mset (busy_jobs (ws[i := Exited])) = mset (busy_jobs ws)"
  using busy_jobs_update [of i ws Exited] by (simp add: job_of_def)

lemma busy_jobs_replicate: "busy_jobs (replicate n Idle) = []"
  by (induction n) (simp_all add: busy_jobs_def job_of_def)

lemma busy_jobs_all_Exited: "\<forall>w \<in> set ws. w = Exited \<Longrightarrow> busy_jobs ws = []"
  by (induction ws) (simp_all add: busy_jobs_def job_of_def)

lemma worker_job_URL: "URL (worker_job E c baseIcon j dl chat) = Job.URL j"
  by (simp add: worker_job_def split: sum.splits prod.splits)

lemma worker_job_Err: "Err (worker_job E c baseIcon j dl chat) \<noteq> None \<Longrightarrow>
   \<not> Match (worker_job E c baseIcon j dl chat)"
  by (cases chat)
    (auto simp: worker_job_def CompareFaviconsChatAPI_def Let_def split: sum.splits)

lemma pool_inv_init: "pool_inv lines n (init_pool lines n)"
  by (simp add: pool_inv_def init_pool_def accounted_def busy_jobs_replicate)

lemma in_set_update: "x \<in> set (ws[i := w]) \<Longrightarrow> x = w \<or> x \<in> set ws"
  using set_update_subset_insert [of ws i w] by auto

lemma pool_inv_step:
  assumes inv: "pool_inv lines n s" and st: "pool_step E c baseIcon s s'"
  shows "pool_inv lines n s'"
  using st
proof cases
  case (send j js)
  with inv show ?thesis
    by (auto simp: pool_inv_def accounted_def)
next
  case close_jobs
  with inv show ?thesis
    by (auto simp: pool_inv_def accounted_def)
next
  case (recv i j js)
  then have idle: "Idle \<in> set (workers s)" by (metis nth_mem)
  from recv inv have "mset (accounted s') = mset (accounted s)"
    by (simp add: accounted_def busy_jobs_recv)
  moreover from recv inv have "Exited \<notin> set (workers s)"
    by (auto simp: pool_inv_def)
  ultimately show ?thesis
    using recv inv idle by (auto simp: pool_inv_def dest: in_set_update)
next
  case (emit i j dl chat)
  then have b: "Busy j \<in> set (workers s)" by (metis nth_mem)
  from emit have "mset (accounted s') =
      mset (map Job.URL (to_send s @ jobs s)) + image_mset Job.URL (mset (busy_jobs ((workers s)[i := Idle])))
      + {#Job.URL j#} + mset (map URL (received s @ results s))"
    by (simp add: accounted_def worker_job_URL)
  also have "\<dots> = mset (map Job.URL (to_send s @ jobs s))
      + image_mset Job.URL (add_mset j (mset (busy_jobs ((workers s)[i := Idle]))))
      + mset (map URL (received s @ results s))"
    by simp
  also have "\<dots> = mset (accounted s)"
    using emit by (simp add: busy_jobs_emit accounted_def)
  finally have "mset (accounted s') = mset (accounted s)" .
  then show ?thesis
    using emit inv b worker_job_Err [of E c baseIcon j dl chat]
    by (auto simp: pool_inv_def dest: in_set_update)
next
  case (exit i)
  then have idle: "Idle \<in> set (workers s)" by (metis nth_mem)
  from exit have "mset (accounted s') = mset (accounted s)"
    by (simp add: accounted_def busy_jobs_exit)
  then show ?thesis
    using exit inv idle by (auto simp: pool_inv_def dest: in_set_update)
next
  case close_results
  with inv show ?thesis
    by (auto simp: pool_inv_def accounted_def)
next
  case (collect r rs)
  with inv show ?thesis
    by (auto simp: pool_inv_def accounted_def)
qed

lemma reachable_inv: "reachable E c baseIcon lines n s \<Longrightarrow> pool_inv lines n s"
  by (induction rule: reachable.induct) (auto intro: pool_inv_init pool_inv_step)


lemma send_jobs_length: "length (send_jobs ls) \<le> length ls"
  by (induction ls) (auto simp: Let_def)

lemma closed_accounted:
  assumes inv: "pool_inv lines n s" and n: "1 \<le> n" and cl: "results_closed s"
  shows "accounted s = map URL (emitted s)"
proof -
  from inv cl have all: "\<forall>w \<in> set (workers s). w = Exited"
    by (simp add: pool_inv_def)
  from inv n have "workers s \<noteq> []" by (auto simp: pool_inv_def)
  with all have "Exited \<in> set (workers s)" by (cases "workers s") auto
  with inv have "jobs_closed s" "jobs s = []" "to_send s = []"
    by (auto simp: pool_inv_def)
  with all show ?thesis
    by (simp add: accounted_def emitted_def busy_jobs_all_Exited)
qed

lemma filter_update_count:
  "i < length ws \<Longrightarrow>
   length (filter P (ws[i := w])) + (if P (ws ! i) then 1 else 0)
     = length (filter P ws) + (if P w then 1 else 0)"
proof (induction ws arbitrary: i)
  case Nil
  then show ?case by simp
next
  case (Cons a ws)
  show ?case
  proof (cases i)
    case 0
    then show ?thesis by simp
  next
    case (Suc k)
    with Cons.prems have "k < length ws" by simp
    from Cons.IH [OF this] Suc show ?thesis by simp
  qed
qed

lemma steps_left_decreases:
  assumes "pool_step E c baseIcon s s'"
  shows "steps_left s' < steps_left s"
  using assms
proof cases
  case (send j js)
  then show ?thesis by (simp add: steps_left_def)
next
  case close_jobs
  then show ?thesis by (simp add: steps_left_def)
next
  case (recv i j js)
  with filter_update_count [of i "workers s" busy "Busy j"]
    filter_update_count [of i "workers s" "\<lambda>w. w \<noteq> Exited" "Busy j"]
  show ?thesis by (simp add: steps_left_def busy_def)
next
  case (emit i j dl chat)
  with filter_update_count [of i "workers s" busy Idle]
    filter_update_count [of i "workers s" "\<lambda>w. w \<noteq> Exited" Idle]
  show ?thesis by (simp add: steps_left_def busy_def)
next
  case (exit i)
  with filter_update_count [of i "workers s" busy Exited]
    filter_update_count [of i "workers s" "\<lambda>w. w \<noteq> Exited" Exited]
  show ?thesis by (simp add: steps_left_def busy_def)
next
  case close_results
  then show ?thesis by (simp add: steps_left_def)
next
  case (collect r rs)
  then show ?thesis by (simp add: steps_left_def)
qed

lemma busy_in_accounted:
  "i < length ws \<Longrightarrow> ws ! i = Busy j \<Longrightarrow> busy_jobs ws \<noteq> []"
proof -
  assume "i < length ws" "ws ! i = Busy j"
  then have "Busy j \<in> set ws" by (metis nth_mem)
  then have "j \<in> set (busy_jobs ws)"
    by (auto simp: busy_jobs_def job_of_def intro!: bexI [of _ "Busy j"])
  then show ?thesis by auto
qed

lemma accounted_bound:
  assumes inv: "pool_inv lines n s"
  shows "length (to_send s) + length (jobs s) + length (busy_jobs (workers s))
           + length (received s) + length (results s) \<le> cap s"
proof -
  from inv have "size (mset (accounted s)) = size (mset (map Job.URL (send_jobs lines)))"
    by (simp add: pool_inv_def)
  then have "length (accounted s) = length (send_jobs lines)" by simp
  moreover from inv have "cap s = length lines" by (simp add: pool_inv_def)
  ultimately show ?thesis
    using send_jobs_length [of lines] by (simp add: accounted_def)
qed

lemma pool_progress:
  assumes inv: "pool_inv lines n s" and nf: "\<not> finished s"
  shows "\<exists>s'. pool_step E c baseIcon s s'"
proof -
  note bound = accounted_bound [OF inv]
  show ?thesis
  proof (cases "to_send s")
    case (Cons j js)
    with bound have "length (jobs s) < cap s" by simp
    with Cons show ?thesis by (blast intro: pool_step.send)
  next
    case Nil
    show ?thesis
    proof (cases "jobs_closed s")
      case False
      with Nil show ?thesis by (blast intro: pool_step.close_jobs)
    next
      case closed: True
      show ?thesis
      proof (cases "results s")
        case (Cons r rs)
        with closed show ?thesis by (blast intro: pool_step.collect)
      next
        case no_results: Nil
        with nf closed have open_results: "\<not> results_closed s"
          by (simp add: finished_def)
        show ?thesis
        proof (cases "\<forall>w \<in> set (workers s). w = Exited")
          case True
          with closed open_results show ?thesis by (blast intro: pool_step.close_results)
        next
          case False
          then obtain i where i: "i < length (workers s)" "workers s ! i \<noteq> Exited"
            by (auto simp: in_set_conv_nth)
          show ?thesis
          proof (cases "workers s ! i")
            case Idle
            show ?thesis
            proof (cases "jobs s")
              case Nil
              with i(1) Idle closed show ?thesis by (blast intro: pool_step.exit)
            next
              case (Cons j js)
              with i(1) Idle show ?thesis by (blast intro: pool_step.recv)
            qed
          next
            case (Busy j)
            with i(1) have "busy_jobs (workers s) \<noteq> []" by (rule busy_in_accounted)
            then have "0 < length (busy_jobs (workers s))" by simp
            with bound have "length (results s) < cap s" by linarith
            with i(1) Busy show ?thesis by (blast intro: pool_step.emit)
          next
            case Exited
            with i(2) show ?thesis by simp
          qed
        qed
      qed
    qed
  qed
qed

lemma reachable_finishes:
  assumes "reachable E c baseIcon lines n s"
  shows "\<exists>s'. reachable E c baseIcon lines n s' \<and> finished s'"
  using assms
proof (induction "steps_left s" arbitrary: s rule: less_induct)
  case less
  show ?case
  proof (cases "finished s")
    case True
    with less.prems show ?thesis by blast
  next
    case False
    from less.prems have "pool_inv lines n s" by (rule reachable_inv)
    from pool_progress [OF this False]
    obtain s' where st: "pool_step E c baseIcon s s'" by blast
    then have "steps_left s' < steps_left s" by (rule steps_left_decreases)
    moreover from less.prems st have "reachable E c baseIcon lines n s'"
      by (rule reachable.step)
    ultimately show ?thesis by (rule less.hyps)
  qed
qed

text \<open>
  Claim C1. With at least one worker, in every state a run can reach: once \<^verbatim>\<open>results\<close> is
  closed the URLs of the results emitted are those of the jobs sent, each as often as it was
  sent, so the results are as many as the jobs; before that no URL has more results than jobs;
  every result is a failure without a match, a match, or a success without a match; a run that
  has not finished can take a step, every step uses up the bound \<open>steps_left\<close>, and some
  run from here finishes, with every result received.
\<close>

theorem pool_emits_one_result_per_job:
  assumes "1 \<le> n" and "reachable E c baseIcon lines n s"
  shows "(results_closed s \<longrightarrow>
            mset (map URL (emitted s)) = mset (map Job.URL (send_jobs lines))
            \<and> length (emitted s) = length (send_jobs lines))
         \<and> (finished s \<longrightarrow> emitted s = received s)
         \<and> mset (map URL (emitted s)) \<subseteq># mset (map Job.URL (send_jobs lines))
         \<and> (\<forall>r \<in> set (emitted s).
               (Err r \<noteq> None \<and> \<not> Match r) \<or> (Err r = None \<and> Match r)
               \<or> (Err r = None \<and> \<not> Match r))
         \<and> (\<not> finished s \<longrightarrow> (\<exists>s'. pool_step E c baseIcon s s'))
         \<and> (\<forall>s'. pool_step E c baseIcon s s' \<longrightarrow> steps_left s' < steps_left s)
         \<and> (\<exists>s'. reachable E c baseIcon lines n s' \<and> finished s')"
proof -
  from assms(2) have inv: "pool_inv lines n s" by (rule reachable_inv)
  have 1: "mset (map URL (emitted s)) = mset (map Job.URL (send_jobs lines))
           \<and> length (emitted s) = length (send_jobs lines)" if cl: "results_closed s"
  proof -
    from inv assms(1) cl have "accounted s = map URL (emitted s)" by (rule closed_accounted)
    with inv have m: "mset (map URL (emitted s)) = mset (map Job.URL (send_jobs lines))"
      by (simp add: pool_inv_def)
    then have "length (map URL (emitted s)) = length (map Job.URL (send_jobs lines))"
      by (rule mset_eq_length)
    then have "length (emitted s) = length (send_jobs lines)" by simp
    with m show ?thesis by blast
  qed
  have 2: "emitted s = received s" if "finished s"
    using that by (simp add: finished_def emitted_def)
  have "mset (map URL (emitted s)) \<subseteq># mset (accounted s)"
    by (simp add: accounted_def emitted_def)
  with inv have 3: "mset (map URL (emitted s)) \<subseteq># mset (map Job.URL (send_jobs lines))"
    by (simp add: pool_inv_def)
  from inv have 4: "\<forall>r \<in> set (emitted s).
               (Err r \<noteq> None \<and> \<not> Match r) \<or> (Err r = None \<and> Match r)
               \<or> (Err r = None \<and> \<not> Match r)"
    by (auto simp: pool_inv_def emitted_def)
  have 5: "\<exists>s'. pool_step E c baseIcon s s'" if "\<not> finished s"
    using inv that by (rule pool_progress)
  have 6: "\<forall>s'. pool_step E c baseIcon s s' \<longrightarrow> steps_left s' < steps_left s"
    by (blast intro: steps_left_decreases)
  from assms(2) have 7: "\<exists>s'. reachable E c baseIcon lines n s' \<and> finished s'"
    by (rule reachable_finishes)
  from 1 2 3 4 5 6 7 show ?thesis by blast
qed

theorem pool_emits_one_result_per_job_witness:
  "(1::nat) \<le> 1
   \<and> reachable test_env test_client ''QQ=='' [''a.com'', ''''] 1 run_final
   \<and> finished run_final
   \<and> mset (map URL (emitted run_final)) = mset (map Job.URL (send_jobs [''a.com'', '''']))
   \<and> length (emitted run_final) = length (send_jobs [''a.com'', ''''])
   \<and> map URL (received run_final) = [''a.com/favicon.ico'']"
proof -
  let ?J = "Job ''a.com/favicon.ico''"
  let ?R = "\<lparr>URL = ''a.com/favicon.ico'', Match = False,
             Err = Some ''bad status for a.com/favicon.ico: 404''\<rparr>"
  let ?s0 = "\<lparr>to_send = [?J], jobs = [], jobs_closed = False, workers = [Idle], results = [],
              results_closed = False, received = [], cap = 2\<rparr>"
  let ?s1 = "\<lparr>to_send = [], jobs = [?J], jobs_closed = False, workers = [Idle], results = [],
              results_closed = False, received = [], cap = 2\<rparr>"
  let ?s2 = "\<lparr>to_send = [], jobs = [], jobs_closed = False, workers = [Busy ?J], results = [],
              results_closed = False, received = [], cap = 2\<rparr>"
  let ?s3 = "\<lparr>to_send = [], jobs = [], jobs_closed = False, workers = [Idle], results = [?R],
              results_closed = False, received = [], cap = 2\<rparr>"
  let ?s4 = "\<lparr>to_send = [], jobs = [], jobs_closed = True, workers = [Idle], results = [?R],
              results_closed = False, received = [], cap = 2\<rparr>"
  let ?s5 = "\<lparr>to_send = [], jobs = [], jobs_closed = True, workers = [Exited], results = [?R],
              results_closed = False, received = [], cap = 2\<rparr>"
  let ?s6 = "\<lparr>to_send = [], jobs = [], jobs_closed = True, workers = [Exited], results = [?R],
              results_closed = True, received = [], cap = 2\<rparr>"
  let ?reach = "reachable test_env test_client ''QQ=='' [''a.com'', ''''] 1"
  let ?step = "pool_step test_env test_client ''QQ==''"
  have jobs: "send_jobs [''a.com'', ''''] = [?J]" by code_simp
  have res: "worker_job test_env test_client ''QQ=='' ?J (Response 404 []) (Response 200 []) = ?R"
    by code_simp
  have i: "init_pool [''a.com'', ''''] 1 = ?s0"
    unfolding init_pool_def jobs by simp
  have "?reach (init_pool [''a.com'', ''''] 1)" by (rule reachable.start)
  then have r0: "?reach ?s0" by (simp only: i)
  have "?step ?s0 ?s1"
    using pool_step.send [of ?s0 ?J "[]" test_env test_client "''QQ==''"] by simp
  with r0 have r1: "?reach ?s1" by (rule reachable.step)
  have "?step ?s1 ?s2"
    using pool_step.recv [of 0 ?s1 ?J "[]" test_env test_client "''QQ==''"] by simp
  with r1 have r2: "?reach ?s2" by (rule reachable.step)
  have "?step ?s2 ?s3"
    using pool_step.emit [of 0 ?s2 ?J test_env test_client "''QQ==''" "Response 404 []"
        "Response 200 []"]
    by (simp add: res)
  with r2 have r3: "?reach ?s3" by (rule reachable.step)
  have "?step ?s3 ?s4"
    using pool_step.close_jobs [of ?s3 test_env test_client "''QQ==''"] by simp
  with r3 have r4: "?reach ?s4" by (rule reachable.step)
  have "?step ?s4 ?s5"
    using pool_step.exit [of 0 ?s4 test_env test_client "''QQ==''"] by simp
  with r4 have r5: "?reach ?s5" by (rule reachable.step)
  have "?step ?s5 ?s6"
    using pool_step.close_results [of ?s5 test_env test_client "''QQ==''"] by simp
  with r5 have r6: "?reach ?s6" by (rule reachable.step)
  have "?step ?s6 run_final"
    using pool_step.collect [of ?s6 ?R "[]" test_env test_client "''QQ==''"]
    by (simp add: run_final_def)
  with r6 have r7: "?reach run_final" by (rule reachable.step)
  have h: "(1::nat) \<le> 1" by simp
  have f: "finished run_final" "results_closed run_final"
    by (simp_all add: finished_def run_final_def)
  have u: "map URL (received run_final) = [''a.com/favicon.ico'']"
    by (simp add: run_final_def)
  from pool_emits_one_result_per_job [OF h r7] f
  have "mset (map URL (emitted run_final)) = mset (map Job.URL (send_jobs [''a.com'', '''']))
        \<and> length (emitted run_final) = length (send_jobs [''a.com'', ''''])"
    by blast
  with h r7 f u show ?thesis by blast
qed

end
